theory Spec2Isabelle
  imports Main "HOL-Library.AList"
begin

section \<open>Characters and strings of the program\<close>

text \<open>
  The program works on Python \<^verbatim>\<open>str\<close> values. A text is modelled as a \<^typ>\<open>string\<close>, each
  \<^typ>\<open>char\<close> standing for the code point of the same number (0 to 255, the Latin-1 range,
  which holds the ASCII records DBLP serves). The character classes below are Python's on
  that range.
\<close>

definition dquote :: char where
  "dquote = CHR 0x22"

definition backslash :: char where
  "backslash = CHR 0x5C"

definition newline :: char where
  "newline = CHR 0x0A"

text \<open>
  \<^verbatim>\<open>str.isspace\<close>, which is also what \<^verbatim>\<open>str.strip()\<close> removes and what the regular
  expression class \<^verbatim>\<open>\s\<close> matches on a \<^verbatim>\<open>str\<close> pattern: the code points 9 to 13, 28 to 32,
  133 and 160.
\<close>

definition is_space :: "char \<Rightarrow> bool" where
  "is_space c =
     (let n = (of_char c :: nat)
      in (9 \<le> n \<and> n \<le> 13) \<or> (28 \<le> n \<and> n \<le> 32) \<or> n = 133 \<or> n = 160)"

text \<open>
  The lower case of one character (\<^verbatim>\<open>str.lower\<close>, and the folding of \<^verbatim>\<open>re.IGNORECASE\<close>):
  A to Z and the Latin-1 capitals 192 to 222 (but the multiplication sign 215) move up by 32.
\<close>

definition to_lower :: "char \<Rightarrow> char" where
  "to_lower c =
     (let n = (of_char c :: nat)
      in if (65 \<le> n \<and> n \<le> 90) \<or> (192 \<le> n \<and> n \<le> 222 \<and> n \<noteq> 215)
         then char_of (n + 32) else c)"

definition lower :: "string \<Rightarrow> string" where
  "lower s = map to_lower s"

text \<open>\<^verbatim>\<open>s.strip()\<close>: white space removed at both ends.\<close>

definition strip :: "string \<Rightarrow> string" where
  "strip s = rev (dropWhile is_space (rev (dropWhile is_space s)))"

section \<open>ValueScanner: \<^verbatim>\<open>_extract_braced_value\<close> and \<^verbatim>\<open>_extract_quoted_value\<close>\<close>

text \<open>
  The \<^verbatim>\<open>while i < len(text)\<close> loop of \<^verbatim>\<open>_extract_braced_value\<close>, with its three
  variables \<^verbatim>\<open>i\<close>, \<^verbatim>\<open>depth\<close> and \<^verbatim>\<open>value_chars\<close>. Leaving the loop at the end of the text
  is the final \<^verbatim>\<open>return None\<close>.
\<close>

function braced_loop :: "string \<Rightarrow> nat \<Rightarrow> nat \<Rightarrow> string \<Rightarrow> string option" where
  "braced_loop text i depth value_chars =
     (if i < length text then
        (let char = text ! i in
         if char = CHR ''{'' then braced_loop text (i + 1) (depth + 1) (value_chars @ [char])
         else if char = CHR ''}'' then
           (if depth = 0 then Some (strip value_chars)
            else braced_loop text (i + 1) (depth - 1) (value_chars @ [char]))
         else braced_loop text (i + 1) depth (value_chars @ [char]))
      else None)"
  by pat_completeness auto
termination
  by (relation "measure (\<lambda>(text, i, depth, value_chars). length text - i)") auto

text \<open>
  \<^verbatim>\<open>_extract_braced_value(text, start_index)\<close> (an Isabelle name cannot start with an
  underscore). The start index is an offset into the text, a natural number: the one caller
  passes \<^verbatim>\<open>match.end() - 1\<close>.
\<close>

definition extract_braced_value :: "string \<Rightarrow> nat \<Rightarrow> string option" where
  "extract_braced_value text start_index =
     (if start_index \<ge> length text \<or> text ! start_index \<noteq> CHR ''{'' then None
      else braced_loop text (start_index + 1) 0 [])"

text \<open>
  The loop of \<^verbatim>\<open>_extract_quoted_value\<close>. \<^verbatim>\<open>text[i - 1]\<close> is always at or after the opening
  quote, since \<^verbatim>\<open>i\<close> starts one past it.
\<close>

function quoted_loop :: "string \<Rightarrow> nat \<Rightarrow> string \<Rightarrow> string option" where
  "quoted_loop text i value_chars =
     (if i < length text then
        (let char = text ! i in
         if char = dquote \<and> text ! (i - 1) \<noteq> backslash then Some (strip value_chars)
         else quoted_loop text (i + 1) (value_chars @ [char]))
      else None)"
  by pat_completeness auto
termination
  by (relation "measure (\<lambda>(text, i, value_chars). length text - i)") auto

definition extract_quoted_value :: "string \<Rightarrow> nat \<Rightarrow> string option" where
  "extract_quoted_value text start_index =
     (if start_index \<ge> length text \<or> text ! start_index \<noteq> dquote then None
      else quoted_loop text (start_index + 1) [])"

subsection \<open>What the scanners are specified to find\<close>

text \<open>
  A value with balanced braces: the empty text, a character that is no brace before a
  balanced text, or a balanced text in braces before a balanced text.
\<close>

inductive balanced :: "string \<Rightarrow> bool" where
  balanced_Nil: "balanced []"
| balanced_char: "c \<noteq> CHR ''{'' \<Longrightarrow> c \<noteq> CHR ''}'' \<Longrightarrow> balanced v \<Longrightarrow> balanced (c # v)"
| balanced_group: "balanced u \<Longrightarrow> balanced v \<Longrightarrow> balanced (CHR ''{'' # u @ CHR ''}'' # v)"

text \<open>
  An unescaped quote of the text: a double quote at index \<open>j\<close> whose left neighbour is
  not a backslash.
\<close>

definition unescaped_quote_at :: "string \<Rightarrow> nat \<Rightarrow> bool" where
  "unescaped_quote_at text j = (text ! j = dquote \<and> text ! (j - 1) \<noteq> backslash)"

section \<open>FieldExtractor: \<^verbatim>\<open>extract_field_value\<close>\<close>

text \<open>
  The compiled pattern is \<^verbatim>\<open>re.escape(field_name)\<close>, then \<^verbatim>\<open>\s*=\s*\<close>, then one group
  holding a brace or a double quote, under \<^verbatim>\<open>re.IGNORECASE\<close>. \<open>match_prefix\<close> is the match
  of that pattern at the start of a text, giving the length matched: the escaped name
  matches its own characters up to letter case, each \<^verbatim>\<open>\s*\<close> takes all the white space
  there is (the character after it is no white space, so giving some back never helps).
\<close>

definition match_prefix :: "string \<Rightarrow> string \<Rightarrow> nat option" where
  "match_prefix field_name s =
     (let n = length field_name in
      if lower (take n s) = lower field_name then
        (let s1 = drop n s; w1 = takeWhile is_space s1 in
         case dropWhile is_space s1 of
           [] \<Rightarrow> None
         | c # s2 \<Rightarrow>
             if c = CHR ''='' then
               (let w2 = takeWhile is_space s2 in
                case dropWhile is_space s2 of
                  [] \<Rightarrow> None
                | d # s3 \<Rightarrow>
                    if d = CHR ''{'' \<or> d = dquote
                    then Some (n + length w1 + 1 + length w2 + 1) else None)
             else None)
      else None)"

text \<open>
  \<^verbatim>\<open>pattern.search(bibtex)\<close>: the match at the leftmost position that has one, as the
  pair of \<^verbatim>\<open>match.start()\<close> and \<^verbatim>\<open>match.end()\<close>.
\<close>

definition pattern_search :: "string \<Rightarrow> string \<Rightarrow> (nat \<times> nat) option" where
  "pattern_search field_name text =
     (case List.find (\<lambda>p. match_prefix field_name (drop p text) \<noteq> None) [0..<length text + 1] of
        None \<Rightarrow> None
      | Some p \<Rightarrow> map_option (\<lambda>k. (p, p + k)) (match_prefix field_name (drop p text)))"

definition extract_field_value :: "string \<Rightarrow> string \<Rightarrow> string option" where
  "extract_field_value bibtex field_name =
     (case pattern_search field_name bibtex of
        None \<Rightarrow> None
      | Some (match_start, match_end) \<Rightarrow>
          (let start_index = match_end - 1; delimiter = bibtex ! start_index in
           if delimiter = CHR ''{'' then extract_braced_value bibtex start_index
           else extract_quoted_value bibtex start_index))"

text \<open>
  The pattern as a set of texts: \<open>pattern_matches field_name text p e\<close> says that the
  slice of the text from \<open>p\<close> to \<open>e\<close> is the field name in any letter case, white space, an
  equals sign, white space, and a brace or a double quote.
\<close>

definition pattern_matches :: "string \<Rightarrow> string \<Rightarrow> nat \<Rightarrow> nat \<Rightarrow> bool" where
  "pattern_matches field_name text p e =
     (\<exists>pre name ws1 ws2 d post.
        text = pre @ name @ ws1 @ CHR ''='' # ws2 @ d # post \<and>
        length pre = p \<and> e = p + length name + length ws1 + 1 + length ws2 + 1 \<and>
        lower name = lower field_name \<and> list_all is_space ws1 \<and> list_all is_space ws2 \<and>
        (d = CHR ''{'' \<or> d = dquote))"

section \<open>The field set\<close>

text \<open>
  \<^verbatim>\<open>fields: dict[str, str | None]\<close>. A Python dict keeps its keys in insertion order, so it
  is an association list with distinct keys; \<^verbatim>\<open>fields[name] = v\<close> is \<^const>\<open>AList.update\<close>
  (in place for a key that is there, at the end for a new one) and \<^verbatim>\<open>fields.get(name)\<close> is
  \<open>dict_get\<close>: \<^verbatim>\<open>None\<close> for a missing key as for a key bound to \<^verbatim>\<open>None\<close>.
\<close>

type_synonym fieldset = "(string \<times> string option) list"

definition dict_get :: "fieldset \<Rightarrow> string \<Rightarrow> string option" where
  "dict_get fields name = (case map_of fields name of None \<Rightarrow> None | Some v \<Rightarrow> v)"

text \<open>Python's truth value of a \<^verbatim>\<open>str | None\<close>: false for \<^verbatim>\<open>None\<close> and for the empty string.\<close>

definition truthy :: "string option \<Rightarrow> bool" where
  "truthy v = (case v of None \<Rightarrow> False | Some s \<Rightarrow> s \<noteq> [])"

section \<open>CrossrefResolver: \<^verbatim>\<open>merge_crossref_fields\<close>\<close>

text \<open>
  \<^verbatim>\<open>fetch_bibtex_entry\<close> performs the network request; it is a parameter of the model, a
  function from the key to the text fetched or to the exception raised (\<open>Inl\<close>). The
  exceptions are those of class \<^verbatim>\<open>Exception\<close>, which is what a failed request raises and
  what \<^verbatim>\<open>except Exception\<close> catches. \<^verbatim>\<open>KeyboardInterrupt\<close> and \<^verbatim>\<open>SystemExit\<close> are not of
  that class and pass through the handler; they are no failure of the request and are not
  modelled. The dict is changed in place and returned: the model returns the new dict.
\<close>

datatype exception = Exception string

definition fill_missing :: "string \<Rightarrow> string \<Rightarrow> fieldset \<Rightarrow> fieldset" where
  "fill_missing crossref_bibtex name fields =
     (if \<not> truthy (dict_get fields name)
      then AList.update name (extract_field_value crossref_bibtex name) fields
      else fields)"

definition merge_crossref_fields ::
  "(string \<Rightarrow> exception + string) \<Rightarrow> string \<Rightarrow> fieldset \<Rightarrow> exception + fieldset" where
  "merge_crossref_fields fetch_bibtex_entry bibtex fields =
     (if truthy (dict_get fields ''booktitle'') \<or> truthy (dict_get fields ''series'')
      then Inr fields
      else
        (let crossref = extract_field_value bibtex ''crossref'' in
         case crossref of
           None \<Rightarrow> Inr fields
         | Some key \<Rightarrow>
             if key = [] then Inr fields
             else
               (case fetch_bibtex_entry key of
                  Inl exc \<Rightarrow> Inr fields
                | Inr crossref_bibtex \<Rightarrow>
                    Inr (fold (fill_missing crossref_bibtex)
                           [''booktitle'', ''series'', ''year''] fields))))"

section \<open>RecordRenderer: \<^verbatim>\<open>render_entry\<close>\<close>

definition FIELD_ORDER :: "string list" where
  "FIELD_ORDER =
     [''author'', ''title'', ''journal'', ''booktitle'', ''series'',
      ''volume'', ''number'', ''pages'', ''year'', ''doi'']"

text \<open>\<^verbatim>\<open>re.sub(r"\s+", " ", value)\<close>: every maximal run of white space becomes one space.\<close>

function collapse_ws :: "string \<Rightarrow> string" where
  "collapse_ws [] = []"
| "collapse_ws (c # cs) =
     (if is_space c then CHR '' '' # collapse_ws (dropWhile is_space cs)
      else c # collapse_ws cs)"
  by pat_completeness auto
termination
  by (relation "measure length") (auto simp: less_Suc_eq_le length_dropWhile_le)

text \<open>The format \<^verbatim>\<open>{name:<{width}}\<close>: spaces on the right up to the width, nothing cut.\<close>

definition ljust :: "nat \<Rightarrow> string \<Rightarrow> string" where
  "ljust width s = s @ replicate (width - length s) CHR '' ''"

fun join_lines :: "string list \<Rightarrow> string" where
  "join_lines [] = []"
| "join_lines [l] = l"
| "join_lines (l # ls) = l @ newline # join_lines ls"

text \<open>One pass of the loop over \<^verbatim>\<open>FIELD_ORDER\<close>: \<^verbatim>\<open>continue\<close>, or one more line.\<close>

definition render_field :: "nat \<Rightarrow> fieldset \<Rightarrow> string \<Rightarrow> string list \<Rightarrow> string list" where
  "render_field width fields name lines =
     (case dict_get fields name of
        None \<Rightarrow> lines
      | Some v \<Rightarrow>
          if v = [] then lines
          else
            (let value_oneline = strip (collapse_ws v);
                 prefix = ''  '' @ ljust width name @ '' = {''
             in lines @ [prefix @ value_oneline @ ''},'']))"

definition render_lines :: "string \<Rightarrow> string \<Rightarrow> fieldset \<Rightarrow> string list" where
  "render_lines entry_type entry_key fields =
     (let width = Max (set (map length FIELD_ORDER));
          lines = [''%'', ''@'' @ entry_type @ ''{'' @ entry_key @ '',''];
          lines = fold (render_field width fields) FIELD_ORDER lines
      in lines @ [''}''])"

definition render_entry :: "string \<Rightarrow> string \<Rightarrow> fieldset \<Rightarrow> string" where
  "render_entry entry_type entry_key fields =
     join_lines (render_lines entry_type entry_key fields)"

section \<open>JournalNormalizer: \<^verbatim>\<open>expand_journal_name\<close>\<close>

definition JOURNAL_EXPANSIONS :: "(string \<times> string) list" where
  "JOURNAL_EXPANSIONS =
     [(''commun acm'', ''Communications of the ACM''),
      (''j cryptol'', ''Journal of Cryptology'')]"

definition normalize_journal_name :: "string \<Rightarrow> string" where
  "normalize_journal_name v =
     (let no_braces = filter (\<lambda>c. c \<noteq> CHR ''{'' \<and> c \<noteq> CHR ''}'') v;
          no_punct = filter (\<lambda>c. c \<noteq> CHR ''.'' \<and> c \<noteq> CHR '','' \<and> c \<noteq> CHR '':'' \<and> c \<noteq> CHR '';'') no_braces
      in lower (strip (collapse_ws no_punct)))"

definition expand_journal_name :: "string option \<Rightarrow> string option" where
  "expand_journal_name v =
     (case v of
        None \<Rightarrow> None
      | Some s \<Rightarrow>
          if s = [] then Some s
          else
            (let normalized = normalize_journal_name s in
             case map_of JOURNAL_EXPANSIONS normalized of
               None \<Rightarrow> Some s
             | Some full \<Rightarrow> Some full))"

section \<open>SelectionEngine: the two functions nested in \<^verbatim>\<open>choose_hit\<close>\<close>

text \<open>
  What a call raises is \<open>Inl\<close> of the exception, what it returns is \<open>Inr\<close>. The
  cancellation of the specification is \<^verbatim>\<open>KeyboardInterrupt\<close>.
\<close>

datatype py_exception = KeyboardInterrupt | ValueError | IndexError | ZeroDivisionError

text \<open>\<^verbatim>\<open>hits[idx]\<close> for any integer index: Python counts a negative index from the end.\<close>

definition py_index :: "'a list \<Rightarrow> int \<Rightarrow> py_exception + 'a" where
  "py_index xs idx =
     (let n = int (length xs) in
      if 0 \<le> idx \<and> idx < n then Inr (xs ! nat idx)
      else if - n \<le> idx \<and> idx < 0 then Inr (xs ! nat (n + idx))
      else Inl IndexError)"

subsection \<open>\<^verbatim>\<open>choose_with_numbers\<close>\<close>

text \<open>
  \<^verbatim>\<open>str.isdigit\<close> holds of the ten decimal digits and of the superscript digits two, three
  and one (178, 179, 185), which are digits but not decimal digits.
\<close>

definition is_decimal :: "char \<Rightarrow> bool" where
  "is_decimal c = (let n = (of_char c :: nat) in 48 \<le> n \<and> n \<le> 57)"

definition is_digit :: "char \<Rightarrow> bool" where
  "is_digit c = (let n = (of_char c :: nat) in (48 \<le> n \<and> n \<le> 57) \<or> n = 178 \<or> n = 179 \<or> n = 185)"

definition str_isdigit :: "string \<Rightarrow> bool" where
  "str_isdigit s = (s \<noteq> [] \<and> list_all is_digit s)"

text \<open>
  \<^verbatim>\<open>int(s)\<close> of a string, in base 10: white space is stripped at both ends, then comes an
  optional sign and decimal digits, with single underscores allowed between two digits;
  anything else raises \<^verbatim>\<open>ValueError\<close>, a superscript digit included. A numeral of more
  decimal digits than \<^verbatim>\<open>sys.get_int_max_str_digits()\<close>, 4300 unless the interpreter is
  configured otherwise, raises \<^verbatim>\<open>ValueError\<close> too; leading zeros count, the sign, the
  underscores and the white space do not.
\<close>

definition int_max_str_digits :: nat where
  "int_max_str_digits = 4300"

fun digits_value :: "string \<Rightarrow> int \<Rightarrow> bool \<Rightarrow> int option" where
  "digits_value [] acc after_digit = (if after_digit then Some acc else None)"
| "digits_value (c # cs) acc after_digit =
     (if is_decimal c then digits_value cs (10 * acc + (of_char c - 48)) True
      else if c = CHR ''_'' \<and> after_digit then digits_value cs acc False
      else None)"

definition py_int :: "string \<Rightarrow> py_exception + int" where
  "py_int s =
     (let t = strip s;
          negative = (t \<noteq> [] \<and> hd t = CHR ''-'');
          body = (if t \<noteq> [] \<and> (hd t = CHR ''+'' \<or> hd t = CHR ''-'') then tl t else t)
      in case digits_value body 0 False of
           None \<Rightarrow> Inl ValueError
         | Some v \<Rightarrow>
             if int_max_str_digits < length (filter is_decimal body) then Inl ValueError
             else Inr (if negative then - v else v))"

text \<open>
  Standard input is the list of the lines \<^verbatim>\<open>input()\<close> returns, in order; past its end
  \<^verbatim>\<open>input()\<close> raises \<^verbatim>\<open>EOFError\<close>. The result is the lines the loop prints with
  \<^verbatim>\<open>print\<close> (the prompt that \<^verbatim>\<open>input\<close> writes is left out) and what the function returns
  or raises.
\<close>

fun numbers_loop :: "'hit list \<Rightarrow> string list \<Rightarrow> string list \<times> (py_exception + 'hit)" where
  "numbers_loop hits [] = ([], py_index hits 0)"
| "numbers_loop hits (line # stdin) =
     (let choice = (if strip line = [] then ''1'' else strip line) in
      if lower choice = ''q'' then ([], Inl KeyboardInterrupt)
      else
        (let retry = (case numbers_loop hits stdin of
                        (printed, r) \<Rightarrow> (''Invalid selection. Try again.'' # printed, r))
         in if str_isdigit choice then
              (case py_int choice of
                 Inl exc \<Rightarrow> ([], Inl exc)
               | Inr n \<Rightarrow>
                   (let idx = n - 1 in
                    if 0 \<le> idx \<and> idx < int (length hits) then ([], py_index hits idx)
                    else retry))
            else retry))"

text \<open>The decimal numeral of a number, for the list printed before the loop.\<close>

fun str_of_nat :: "nat \<Rightarrow> string" where
  "str_of_nat n =
     (if n < 10 then [char_of (48 + n)] else str_of_nat (n div 10) @ [char_of (48 + n mod 10)])"

definition choose_with_numbers ::
  "'hit list \<Rightarrow> string list \<Rightarrow> string list \<Rightarrow> string list \<times> (py_exception + 'hit)" where
  "choose_with_numbers hits descriptions stdin =
     (let header = ''Multiple entries found. Type the number to select:'' #
                   map (\<lambda>(i, desc). ''  '' @ str_of_nat i @ ''. '' @ desc)
                     (zip [1..<length descriptions + 1] descriptions)
      in case numbers_loop hits stdin of (printed, r) \<Rightarrow> (header @ printed, r))"

subsection \<open>\<^verbatim>\<open>selector\<close>\<close>

text \<open>The key codes of curses, and \<^verbatim>\<open>ord\<close> of the letters the loop compares with.\<close>

definition KEY_DOWN :: int where "KEY_DOWN = 258"
definition KEY_UP :: int where "KEY_UP = 259"
definition KEY_ENTER :: int where "KEY_ENTER = 343"

text \<open>
  The state of the menu between two key presses is the cursor \<^verbatim>\<open>idx\<close>; a key moves it,
  or ends the loop with a return or a raise. \<open>selector_key\<close> is the chain of
  \<^verbatim>\<open>if\<close>/\<^verbatim>\<open>elif\<close> after \<^verbatim>\<open>getch()\<close>. Drawing the list reads the cursor and does not change
  it; an error of the display, after which \<^verbatim>\<open>choose_hit\<close> goes on with the numbered
  prompt, is not modelled. The keys are the list of the values \<^verbatim>\<open>getch()\<close> returns; at its
  end the menu is still open.
\<close>

datatype 'hit menu = Active int | Finished "py_exception + 'hit"

definition selector_key :: "'hit list \<Rightarrow> int \<Rightarrow> int \<Rightarrow> 'hit menu" where
  "selector_key hits idx key =
     (if key = KEY_UP \<or> key = 107 then
        (if length hits = 0 then Finished (Inl ZeroDivisionError)
         else Active ((idx - 1) mod int (length hits)))
      else if key = KEY_DOWN \<or> key = 106 then
        (if length hits = 0 then Finished (Inl ZeroDivisionError)
         else Active ((idx + 1) mod int (length hits)))
      else if key = KEY_ENTER \<or> key = 10 \<or> key = 13 then Finished (py_index hits idx)
      else if key = 27 \<or> key = 113 \<or> key = 81 then Finished (Inl KeyboardInterrupt)
      else Active idx)"

fun selector_loop :: "'hit list \<Rightarrow> int \<Rightarrow> int list \<Rightarrow> 'hit menu" where
  "selector_loop hits idx [] = Active idx"
| "selector_loop hits idx (key # keys) =
     (case selector_key hits idx key of
        Active idx' \<Rightarrow> selector_loop hits idx' keys
      | Finished r \<Rightarrow> Finished r)"

definition selector :: "'hit list \<Rightarrow> int list \<Rightarrow> 'hit menu" where
  "selector hits keys = selector_loop hits 0 keys"

section \<open>Auxiliary definitions of the proofs\<close>

text \<open>The braced loop as a recursion over the text that is left, for the proofs.\<close>

fun scan_braces :: "string \<Rightarrow> nat \<Rightarrow> string \<Rightarrow> string option" where
  "scan_braces [] depth acc = None"
| "scan_braces (c # cs) depth acc =
     (if c = CHR ''{'' then scan_braces cs (depth + 1) (acc @ [c])
      else if c = CHR ''}'' then
        (if depth = 0 then Some (strip acc) else scan_braces cs (depth - 1) (acc @ [c]))
      else scan_braces cs depth (acc @ [c]))"

text \<open>
  \<open>closing d v\<close>: the text \<open>v\<close> read from depth \<open>d\<close> comes back to depth 0 without a
  closing brace at depth 0, that is, \<open>v\<close> is \<open>d + 1\<close> balanced texts with one closing brace
  between each two.
\<close>

inductive closing :: "nat \<Rightarrow> string \<Rightarrow> bool" where
  closing_0: "balanced v \<Longrightarrow> closing 0 v"
| closing_Suc: "balanced u \<Longrightarrow> closing d w \<Longrightarrow> closing (Suc d) (u @ CHR ''}'' # w)"

section \<open>Proofs: the value scanners\<close>

declare braced_loop.simps [simp del]
declare quoted_loop.simps [simp del]
declare collapse_ws.simps [simp del]
declare str_of_nat.simps [simp del]

lemma braced_loop_scan:
  "i \<le> length text \<Longrightarrow> braced_loop text i depth acc = scan_braces (drop i text) depth acc"
proof (induction "text" i depth acc rule: braced_loop.induct)
  case (1 s i depth value_chars)
  show ?case
  proof (cases "i < length s")
    case True
    then have d: "drop i s = s ! i # drop (Suc i) s"
      by (simp add: Cons_nth_drop_Suc)
    from True have le: "i + 1 \<le> length s" by simp
    show ?thesis
      using True "1.IH" le d by (subst braced_loop.simps) (auto simp: Let_def)
  next
    case False
    with "1.prems" show ?thesis by (subst braced_loop.simps) simp
  qed
qed

lemma scan_braces_balanced:
  "balanced v \<Longrightarrow> scan_braces (v @ t) depth acc = scan_braces t depth (acc @ v)"
proof (induction v arbitrary: depth acc t rule: balanced.induct)
  case balanced_Nil
  show ?case by simp
next
  case (balanced_char c v)
  then show ?case by simp
next
  case (balanced_group u v)
  have "scan_braces ((CHR ''{'' # u @ CHR ''}'' # v) @ t) depth acc
      = scan_braces (u @ (CHR ''}'' # v @ t)) (depth + 1) (acc @ [CHR ''{''])"
    by simp
  also have "\<dots> = scan_braces (CHR ''}'' # v @ t) (depth + 1) ((acc @ [CHR ''{'']) @ u)"
    by (rule balanced_group.IH(1))
  also have "\<dots> = scan_braces (v @ t) depth (acc @ [CHR ''{''] @ u @ [CHR ''}''])"
    by simp
  also have "\<dots> = scan_braces t depth ((acc @ [CHR ''{''] @ u @ [CHR ''}'']) @ v)"
    by (rule balanced_group.IH(2))
  finally show ?case by simp
qed

lemma closing_char:
  "closing d w \<Longrightarrow> c \<noteq> CHR ''{'' \<Longrightarrow> c \<noteq> CHR ''}'' \<Longrightarrow> closing d (c # w)"
proof (induction rule: closing.cases)
  case (closing_0 v)
  then show ?case by (auto intro: closing.intros balanced.intros)
next
  case (closing_Suc u d' w')
  then have "balanced (c # u)" by (auto intro: balanced.intros)
  with closing_Suc have "closing (Suc d') ((c # u) @ CHR ''}'' # w')"
    by (intro closing.closing_Suc) auto
  with closing_Suc show ?case by simp
qed

lemma closing_group:
  "closing d w \<Longrightarrow> balanced u \<Longrightarrow> closing d (CHR ''{'' # u @ CHR ''}'' # w)"
proof (induction rule: closing.cases)
  case (closing_0 v)
  then show ?case by (auto intro: closing.intros balanced.intros)
next
  case (closing_Suc u' d' w')
  then have "balanced (CHR ''{'' # u @ CHR ''}'' # u')" by (auto intro: balanced.intros)
  with closing_Suc have "closing (Suc d') ((CHR ''{'' # u @ CHR ''}'' # u') @ CHR ''}'' # w')"
    by (intro closing.closing_Suc) auto
  with closing_Suc show ?case by simp
qed

lemma scan_braces_Some:
  "scan_braces t depth acc = Some r \<Longrightarrow>
     \<exists>v t'. t = v @ CHR ''}'' # t' \<and> closing depth v \<and> r = strip (acc @ v)"
proof (induction t depth acc rule: scan_braces.induct)
  case (1 depth acc)
  then show ?case by simp
next
  case (2 c cs depth acc)
  show ?case
  proof (cases "c = CHR ''{''")
    case True
    with "2.prems" have "scan_braces cs (depth + 1) (acc @ [c]) = Some r" by simp
    from "2.IH"(1)[OF True this] obtain w t' where
      w: "cs = w @ CHR ''}'' # t'" "closing (depth + 1) w" "r = strip ((acc @ [c]) @ w)" by blast
    from w(2) obtain u w' where u: "w = u @ CHR ''}'' # w'" "balanced u" "closing depth w'"
      by (auto elim: closing.cases)
    have "closing depth (CHR ''{'' # u @ CHR ''}'' # w')"
      using u by (intro closing_group)
    with w u True show ?thesis by (intro exI[of _ "c # w"] exI[of _ t']) simp
  next
    case nopen: False
    show ?thesis
    proof (cases "c = CHR ''}''")
      case True
      show ?thesis
      proof (cases "depth = 0")
        case d0: True
        with True "2.prems" have "r = strip acc" by simp
        with True d0 show ?thesis
          by (intro exI[of _ "[]"] exI[of _ cs]) (simp add: closing.intros balanced.intros)
      next
        case dpos: False
        with True nopen "2.prems" have "scan_braces cs (depth - 1) (acc @ [c]) = Some r" by simp
        from "2.IH"(2)[OF nopen True dpos this] obtain w t' where
          w: "cs = w @ CHR ''}'' # t'" "closing (depth - 1) w" "r = strip ((acc @ [c]) @ w)" by blast
        have "closing (Suc (depth - 1)) ([] @ CHR ''}'' # w)"
          using w(2) by (intro closing_Suc balanced_Nil)
        with dpos have "closing depth (c # w)" using True by simp
        with w show ?thesis by (intro exI[of _ "c # w"] exI[of _ t']) simp
      qed
    next
      case False
      with nopen "2.prems" have "scan_braces cs depth (acc @ [c]) = Some r" by simp
      from "2.IH"(3)[OF nopen False this] obtain w t' where
        w: "cs = w @ CHR ''}'' # t'" "closing depth w" "r = strip ((acc @ [c]) @ w)" by blast
      have "closing depth (c # w)" using w(2) nopen False by (rule closing_char)
      with w show ?thesis by (intro exI[of _ "c # w"] exI[of _ t']) simp
    qed
  qed
qed

lemma closing_0_balanced: "closing 0 v \<Longrightarrow> balanced v"
  by (auto elim: closing.cases)

lemma balanced_no_brace:
  "CHR ''{'' \<notin> set v \<Longrightarrow> CHR ''}'' \<notin> set v \<Longrightarrow> balanced v"
  by (induction v) (auto intro: balanced.intros)

lemma balanced_append: "balanced u \<Longrightarrow> balanced v \<Longrightarrow> balanced (u @ v)"
proof (induction u rule: balanced.induct)
  case balanced_Nil
  then show ?case by simp
next
  case (balanced_char c u)
  then show ?case by (auto intro: balanced.intros)
next
  case (balanced_group u w)
  then have "balanced (CHR ''{'' # u @ CHR ''}'' # (w @ v))"
    by (intro balanced.balanced_group) auto
  then show ?case by simp
qed

text \<open>
  C1. Brace mode. When \<^verbatim>\<open>text[start_index]\<close> is an opening brace: if what follows it is a
  value \<open>v\<close> with balanced braces and then a closing brace, the scanner returns \<open>v\<close> with
  its inner braces as they are, without the outer braces, and stripped of white space at
  both ends; if the text after the opening brace has no such closing brace (it ends before
  a closing brace at depth 0), the scanner returns \<^verbatim>\<open>None\<close>, never a part of the value.
\<close>

theorem extract_braced_value_spec:
  assumes "start_index < length text" and "text ! start_index = CHR ''{''"
  shows "(\<forall>v tail. drop (Suc start_index) text = v @ CHR ''}'' # tail \<and> balanced v
            \<longrightarrow> extract_braced_value text start_index = Some (strip v))
       \<and> ((\<nexists>v tail. drop (Suc start_index) text = v @ CHR ''}'' # tail \<and> balanced v)
            \<longrightarrow> extract_braced_value text start_index = None)"
proof -
  have e: "extract_braced_value text start_index = scan_braces (drop (Suc start_index) text) 0 []"
    using assms by (simp add: extract_braced_value_def braced_loop_scan)
  show ?thesis
  proof (intro conjI allI impI)
    fix v tail
    assume "drop (Suc start_index) text = v @ CHR ''}'' # tail \<and> balanced v"
    then show "extract_braced_value text start_index = Some (strip v)"
      by (simp add: e scan_braces_balanced)
  next
    assume none: "\<nexists>v tail. drop (Suc start_index) text = v @ CHR ''}'' # tail \<and> balanced v"
    show "extract_braced_value text start_index = None"
    proof (rule ccontr)
      assume "extract_braced_value text start_index \<noteq> None"
      then obtain r where "scan_braces (drop (Suc start_index) text) 0 [] = Some r"
        using e by auto
      from scan_braces_Some[OF this] none show False
        by (auto dest: closing_0_balanced)
    qed
  qed
qed

theorem extract_braced_value_spec_witness:
  "extract_braced_value ''title = { The {RSA} Scheme } ,'' 8 = Some ''The {RSA} Scheme''
   \<and> extract_braced_value ''title = {The {RSA}'' 8 = None"
proof
  let ?t = "''title = { The {RSA} Scheme } ,''"
  let ?v = "'' The {RSA} Scheme ''"
  have h1: "8 < length ?t" and h2: "?t ! 8 = CHR ''{''" by simp_all
  have d: "drop (Suc 8) ?t = ?v @ CHR ''}'' # '' ,''" by simp
  have "balanced ('' The '' @ CHR ''{'' # ''RSA'' @ CHR ''}'' # '' Scheme '')"
    by (intro balanced_append balanced_group balanced_no_brace) simp_all
  then have b: "balanced ?v" by simp
  have s: "strip ?v = ''The {RSA} Scheme''" by code_simp
  from extract_braced_value_spec[OF h1 h2] d b
  have "extract_braced_value ?t 8 = Some (strip ?v)" by blast
  with s show "extract_braced_value ?t 8 = Some ''The {RSA} Scheme''" by simp
next
  let ?t = "''title = {The {RSA}''"
  have h1: "8 < length ?t" and h2: "?t ! 8 = CHR ''{''" by simp_all
  have n: "scan_braces (drop (Suc 8) ?t) 0 [] = None" by code_simp
  have "\<nexists>v tail. drop (Suc 8) ?t = v @ CHR ''}'' # tail \<and> balanced v"
  proof
    assume "\<exists>v tail. drop (Suc 8) ?t = v @ CHR ''}'' # tail \<and> balanced v"
    then obtain v tail where e: "drop (Suc 8) ?t = v @ CHR ''}'' # tail" and b: "balanced v"
      by blast
    from scan_braces_balanced[OF b, of "CHR ''}'' # tail" 0 "[]"] e n show False by simp
  qed
  with extract_braced_value_spec[OF h1 h2]
  show "extract_braced_value ?t 8 = None" by blast
qed

lemma list_all_upt: "list_all P [Suc a..<b] \<Longrightarrow> \<forall>k. a < k \<and> k < b \<longrightarrow> P k"
  by (auto simp: list_all_iff)

lemma quoted_loop_first:
  "i \<le> j \<Longrightarrow> j < length s \<Longrightarrow> unescaped_quote_at s j \<Longrightarrow>
   (\<forall>k. i \<le> k \<and> k < j \<longrightarrow> \<not> unescaped_quote_at s k) \<Longrightarrow>
   quoted_loop s i acc = Some (strip (acc @ take (j - i) (drop i s)))"
proof (induction "j - i" arbitrary: i acc)
  case 0
  then have "i = j" by simp
  with 0 show ?case
    by (subst quoted_loop.simps) (simp add: unescaped_quote_at_def)
next
  case (Suc n)
  then have lt: "i < j" and il: "i < length s" by simp_all
  with Suc.prems have nq: "\<not> unescaped_quote_at s i" by simp
  have "quoted_loop s (i + 1) (acc @ [s ! i]) =
          Some (strip ((acc @ [s ! i]) @ take (j - (i + 1)) (drop (i + 1) s)))"
    using Suc.hyps(2) Suc.prems lt by (intro Suc.hyps(1)) auto
  moreover have "take (j - i) (drop i s) = s ! i # take (j - (i + 1)) (drop (i + 1) s)"
    using lt il by (simp add: Cons_nth_drop_Suc[symmetric] take_Cons')
  ultimately show ?case
    using il nq by (subst quoted_loop.simps) (auto simp: unescaped_quote_at_def Let_def)
qed

lemma quoted_loop_none:
  "(\<forall>k. i \<le> k \<and> k < length s \<longrightarrow> \<not> unescaped_quote_at s k) \<Longrightarrow> quoted_loop s i acc = None"
proof (induction s i acc rule: quoted_loop.induct)
  case (1 s i acc)
  show ?case
  proof (cases "i < length s")
    case True
    with "1.prems" have nq: "\<not> unescaped_quote_at s i" by simp
    then have "quoted_loop s (i + 1) (acc @ [s ! i]) = None"
      using True "1.prems" by (intro "1.IH") (auto simp: unescaped_quote_at_def)
    with True nq show ?thesis
      by (subst quoted_loop.simps) (simp add: unescaped_quote_at_def Let_def)
  next
    case False
    then show ?thesis by (subst quoted_loop.simps) simp
  qed
qed

text \<open>
  C2, as amended. Quote mode. When \<^verbatim>\<open>text[start_index]\<close> is a double quote: the scanner
  stops at the first later double quote that has no backslash right before it, and returns
  the characters between the two quotes, stripped of white space at both ends (escaped
  quotes before that one are part of the value, with their backslashes); with no such
  quote before the end of the text it returns \<^verbatim>\<open>None\<close>; and whatever it returns ends at
  an unescaped quote.
\<close>

theorem extract_quoted_value_trimmed:
  assumes "start_index < length text" and "text ! start_index = dquote"
  shows "(\<forall>j. start_index < j \<and> j < length text \<and> unescaped_quote_at text j \<and>
              (\<forall>k. start_index < k \<and> k < j \<longrightarrow> \<not> unescaped_quote_at text k)
            \<longrightarrow> extract_quoted_value text start_index =
                  Some (strip (take (j - Suc start_index) (drop (Suc start_index) text))))
       \<and> ((\<forall>j. start_index < j \<and> j < length text \<longrightarrow> \<not> unescaped_quote_at text j)
            \<longrightarrow> extract_quoted_value text start_index = None)
       \<and> (\<forall>r. extract_quoted_value text start_index = Some r \<longrightarrow>
              (\<exists>j. start_index < j \<and> j < length text \<and> unescaped_quote_at text j \<and>
                   r = strip (take (j - Suc start_index) (drop (Suc start_index) text))))"
proof -
  have e: "extract_quoted_value text start_index = quoted_loop text (Suc start_index) []"
    using assms by (simp add: extract_quoted_value_def)
  have first: "extract_quoted_value text start_index =
                  Some (strip (take (j - Suc start_index) (drop (Suc start_index) text)))"
    if "start_index < j \<and> j < length text \<and> unescaped_quote_at text j \<and>
              (\<forall>k. start_index < k \<and> k < j \<longrightarrow> \<not> unescaped_quote_at text k)" for j
    using that quoted_loop_first[of "Suc start_index" j "text" "[]"] by (simp add: e)
  have none: "extract_quoted_value text start_index = None"
    if "\<forall>j. start_index < j \<and> j < length text \<longrightarrow> \<not> unescaped_quote_at text j"
    using that quoted_loop_none[of "Suc start_index" "text" "[]"] by (simp add: e)
  have some: "\<exists>j. start_index < j \<and> j < length text \<and> unescaped_quote_at text j \<and>
                   r = strip (take (j - Suc start_index) (drop (Suc start_index) text))"
    if r: "extract_quoted_value text start_index = Some r" for r
  proof -
    let ?P = "\<lambda>j. start_index < j \<and> j < length text \<and> unescaped_quote_at text j"
    from r none have ex: "\<exists>j. ?P j" by fastforce
    define j where "j = (LEAST j. ?P j)"
    have Pj: "?P j" unfolding j_def using ex by (rule LeastI_ex)
    have "\<not> ?P k" if "k < j" for k
      using that not_less_Least unfolding j_def by blast
    with Pj have "start_index < j \<and> j < length text \<and> unescaped_quote_at text j \<and>
              (\<forall>k. start_index < k \<and> k < j \<longrightarrow> \<not> unescaped_quote_at text k)"
      by auto
    from first[OF this] r Pj show ?thesis by auto
  qed
  from first none some show ?thesis by blast
qed

theorem extract_quoted_value_trimmed_witness:
  "extract_quoted_value
     (''note = '' @ [dquote] @ '' say '' @ [backslash, dquote] @ ''hi'' @ [backslash, dquote] @
      '' '' @ [dquote] @ '','') 7
     = Some (''say '' @ [backslash, dquote] @ ''hi'' @ [backslash, dquote])
   \<and> extract_quoted_value (''note = '' @ [dquote] @ ''hi'' @ [backslash, dquote]) 7 = None
   \<and> (\<exists>j. unescaped_quote_at
            (''note = '' @ [dquote] @ '' say '' @ [backslash, dquote] @ ''hi'' @
             [backslash, dquote] @ '' '' @ [dquote] @ '','') j)"
proof (intro conjI)
  let ?t = "''note = '' @ [dquote] @ '' say '' @ [backslash, dquote] @ ''hi'' @
            [backslash, dquote] @ '' '' @ [dquote] @ '',''"
  have h1: "7 < length ?t" by simp
  have h2: "?t ! 7 = dquote" by code_simp
  have q: "unescaped_quote_at ?t 20" by code_simp
  have "list_all (\<lambda>k. \<not> unescaped_quote_at ?t k) [Suc 7..<20]" by code_simp
  then have nq: "\<forall>k. 7 < k \<and> k < 20 \<longrightarrow> \<not> unescaped_quote_at ?t k"
    by (rule list_all_upt)
  have l: "20 < length ?t" by simp
  have seven: "(7::nat) < 20" by simp
  have v: "strip (take (20 - Suc 7) (drop (Suc 7) ?t))
             = ''say '' @ [backslash, dquote] @ ''hi'' @ [backslash, dquote]"
    by code_simp
  from extract_quoted_value_trimmed[OF h1 h2] seven l q nq
  have r: "extract_quoted_value ?t 7 = Some (strip (take (20 - Suc 7) (drop (Suc 7) ?t)))"
    by blast
  with v show "extract_quoted_value ?t 7
     = Some (''say '' @ [backslash, dquote] @ ''hi'' @ [backslash, dquote])" by simp
  from extract_quoted_value_trimmed[OF h1 h2] r
  show "\<exists>j. unescaped_quote_at ?t j" by blast
next
  let ?t = "''note = '' @ [dquote] @ ''hi'' @ [backslash, dquote]"
  have h1: "7 < length ?t" by simp
  have h2: "?t ! 7 = dquote" by code_simp
  have "list_all (\<lambda>k. \<not> unescaped_quote_at ?t k) [Suc 7..<length ?t]" by code_simp
  then have "\<forall>j. 7 < j \<and> j < length ?t \<longrightarrow> \<not> unescaped_quote_at ?t j"
    by (rule list_all_upt)
  with extract_quoted_value_trimmed[OF h1 h2]
  show "extract_quoted_value ?t 7 = None" by blast
qed

text \<open>
  C2 as the specification words it, returning the accumulated text itself, fails on a
  value with white space at an end: in the four characters quote, space, a, quote the
  closing quote is at index 3 and the text accumulated is a space and an a, but the
  scanner returns the a alone.
\<close>

theorem extract_quoted_value_untrimmed_counterexample:
  "unescaped_quote_at [dquote, CHR '' '', CHR ''a'', dquote] 3
   \<and> \<not> unescaped_quote_at [dquote, CHR '' '', CHR ''a'', dquote] 1
   \<and> \<not> unescaped_quote_at [dquote, CHR '' '', CHR ''a'', dquote] 2
   \<and> take 2 (drop 1 [dquote, CHR '' '', CHR ''a'', dquote]) = '' a''
   \<and> extract_quoted_value [dquote, CHR '' '', CHR ''a'', dquote] 0 = Some ''a''
   \<and> extract_quoted_value [dquote, CHR '' '', CHR ''a'', dquote] 0 \<noteq> Some '' a''"
  by code_simp

section \<open>Proofs: the field extractor\<close>

lemma lower_eq_length: "lower a = lower b \<Longrightarrow> length a = length b"
  unfolding lower_def by (rule map_eq_imp_length_eq)

lemma match_prefix_ci:
  "lower f1 = lower f2 \<Longrightarrow> match_prefix f1 s = match_prefix f2 s"
  using lower_eq_length[of f1 f2] by (simp add: match_prefix_def)

lemma pattern_search_ci:
  assumes "lower f1 = lower f2"
  shows "pattern_search f1 s = pattern_search f2 s"
proof -
  have "match_prefix f1 = match_prefix f2"
    using assms by (intro ext) (rule match_prefix_ci)
  then show ?thesis by (simp only: pattern_search_def)
qed

lemma extract_field_value_ci:
  assumes "lower f1 = lower f2"
  shows "extract_field_value s f1 = extract_field_value s f2"
proof -
  have "pattern_search f1 s = pattern_search f2 s"
    using assms by (rule pattern_search_ci)
  then show ?thesis by (simp only: extract_field_value_def)
qed

lemma find_upt_first:
  "p < n \<Longrightarrow> P p \<Longrightarrow> (\<forall>q<p. \<not> P q) \<Longrightarrow> List.find P [0..<n] = Some p"
  unfolding find_Some_iff by (intro exI[of _ p]) auto

lemma find_upt_none: "(\<forall>q<n. \<not> P q) \<Longrightarrow> List.find P [0..<n] = None"
  by (auto simp: find_None_iff)

lemma not_space_delims:
  "\<not> is_space CHR ''=''" "\<not> is_space CHR ''{''" "\<not> is_space dquote"
  by code_simp+

lemma span_spaces:
  assumes "list_all is_space ws" and "\<not> is_space y"
  shows "takeWhile is_space (ws @ y # ys) = ws" and "dropWhile is_space (ws @ y # ys) = y # ys"
  using assms by (simp_all add: list_all_iff)

lemma match_prefix_complete:
  assumes s: "s = name @ ws1 @ CHR ''='' # ws2 @ d # post"
    and n: "lower name = lower f"
    and w1: "list_all is_space ws1" and w2: "list_all is_space ws2"
    and d: "d = CHR ''{'' \<or> d = dquote"
  shows "match_prefix f s = Some (length name + length ws1 + 1 + length ws2 + 1)"
proof -
  have len: "length f = length name" using n by (rule lower_eq_length[symmetric])
  have t: "take (length f) s = name" and dr: "drop (length f) s = ws1 @ CHR ''='' # ws2 @ d # post"
    using s len by simp_all
  have nd: "\<not> is_space d" using d not_space_delims by auto
  have a: "takeWhile is_space (ws1 @ CHR ''='' # ws2 @ d # post) = ws1"
    and b: "dropWhile is_space (ws1 @ CHR ''='' # ws2 @ d # post) = CHR ''='' # ws2 @ d # post"
    using span_spaces[OF w1 not_space_delims(1)] by simp_all
  have a2: "takeWhile is_space (ws2 @ d # post) = ws2"
    and b2: "dropWhile is_space (ws2 @ d # post) = d # post"
    using span_spaces[OF w2 nd] by simp_all
  have l: "lower (take (length f) s) = lower f" using t n by simp
  show ?thesis
    unfolding match_prefix_def Let_def
    by (simp only: l if_True dr a b a2 b2 list.case) (use d len in auto)
qed

lemma match_prefix_sound:
  assumes "match_prefix f s = Some k"
  shows "\<exists>name ws1 ws2 d post. s = name @ ws1 @ CHR ''='' # ws2 @ d # post \<and>
           k = length name + length ws1 + 1 + length ws2 + 1 \<and> lower name = lower f \<and>
           list_all is_space ws1 \<and> list_all is_space ws2 \<and> (d = CHR ''{'' \<or> d = dquote)"
proof -
  let ?n = "length f"
  let ?s1 = "drop ?n s"
  have n: "lower (take ?n s) = lower f"
  proof (rule ccontr)
    assume "lower (take ?n s) \<noteq> lower f"
    then have "match_prefix f s = None" by (simp add: match_prefix_def)
    with assms show False by simp
  qed
  define inner where "inner s2 =
     (case dropWhile is_space s2 of [] \<Rightarrow> None
      | d # s3 \<Rightarrow> if d = CHR ''{'' \<or> d = dquote
          then Some (?n + length (takeWhile is_space ?s1) + 1 + length (takeWhile is_space s2) + 1)
          else None)" for s2
  have m: "match_prefix f s =
     (case dropWhile is_space ?s1 of [] \<Rightarrow> None
      | c # s2 \<Rightarrow> if c = CHR ''='' then inner s2 else None)"
    unfolding inner_def match_prefix_def Let_def using n by simp
  obtain s2 where s2: "dropWhile is_space ?s1 = CHR ''='' # s2" and i: "inner s2 = Some k"
  proof (cases "dropWhile is_space ?s1")
    case Nil
    with m assms show ?thesis by simp
  next
    case (Cons c s2)
    with m assms have "c = CHR ''=''" "inner s2 = Some k"
      by (simp_all split: if_splits)
    with Cons that show ?thesis by simp
  qed
  obtain d s3 where s3: "dropWhile is_space s2 = d # s3"
    and d: "d = CHR ''{'' \<or> d = dquote"
    and k: "k = ?n + length (takeWhile is_space ?s1) + 1 + length (takeWhile is_space s2) + 1"
  proof (cases "dropWhile is_space s2")
    case Nil
    with i show ?thesis by (simp add: inner_def)
  next
    case (Cons d s3)
    with i have "d = CHR ''{'' \<or> d = dquote"
      "k = ?n + length (takeWhile is_space ?s1) + 1 + length (takeWhile is_space s2) + 1"
      by (simp_all add: inner_def split: if_splits)
    with Cons that show ?thesis by blast
  qed
  have len: "length (take ?n s) = ?n" using n by (rule lower_eq_length)
  have e1: "?s1 = takeWhile is_space ?s1 @ CHR ''='' # s2"
    using takeWhile_dropWhile_id[of is_space ?s1] s2 by simp
  have e2: "s2 = takeWhile is_space s2 @ d # s3"
    using takeWhile_dropWhile_id[of is_space s2] s3 by simp
  have "s = take ?n s @ ?s1" by simp
  with e1 have "s = take ?n s @ takeWhile is_space ?s1 @ CHR ''='' # s2" by simp
  with e2 have e: "s = take ?n s @ takeWhile is_space ?s1 @ CHR ''='' # takeWhile is_space s2 @ d # s3"
    by simp
  have w1: "list_all is_space (takeWhile is_space ?s1)"
    and w2: "list_all is_space (takeWhile is_space s2)"
    by (auto simp: list_all_iff dest: set_takeWhileD)
  have k': "k = length (take ?n s) + length (takeWhile is_space ?s1) + 1
                 + length (takeWhile is_space s2) + 1"
    using k len by simp
  show ?thesis
    by (rule exI[of _ "take ?n s"], rule exI[of _ "takeWhile is_space ?s1"],
        rule exI[of _ "takeWhile is_space s2"], rule exI[of _ d], rule exI[of _ s3])
       (use e k' n w1 w2 d in blast)
qed

lemma pattern_matches_iff:
  "pattern_matches f s p e \<longleftrightarrow> p \<le> length s \<and> p \<le> e \<and> match_prefix f (drop p s) = Some (e - p)"
proof
  assume "pattern_matches f s p e"
  then obtain pre name ws1 ws2 d post where
    s: "s = pre @ name @ ws1 @ CHR ''='' # ws2 @ d # post" and p: "length pre = p"
    and e: "e = p + length name + length ws1 + 1 + length ws2 + 1"
    and r: "lower name = lower f" "list_all is_space ws1" "list_all is_space ws2"
           "d = CHR ''{'' \<or> d = dquote"
    unfolding pattern_matches_def by blast
  have "drop (length pre) (pre @ name @ ws1 @ CHR ''='' # ws2 @ d # post)
          = name @ ws1 @ CHR ''='' # ws2 @ d # post"
    by simp
  then have dr: "drop p s = name @ ws1 @ CHR ''='' # ws2 @ d # post"
    unfolding s p .
  have k: "e - p = length name + length ws1 + 1 + length ws2 + 1" and pe: "p \<le> e"
    unfolding e by simp_all
  have "match_prefix f (drop p s) = Some (e - p)"
    unfolding k by (rule match_prefix_complete[OF dr r])
  moreover have "p \<le> length s" unfolding s p[symmetric] by simp
  ultimately show "p \<le> length s \<and> p \<le> e \<and> match_prefix f (drop p s) = Some (e - p)"
    using pe by simp
next
  assume a: "p \<le> length s \<and> p \<le> e \<and> match_prefix f (drop p s) = Some (e - p)"
  then have m: "match_prefix f (drop p s) = Some (e - p)" by simp
  from match_prefix_sound[OF m] obtain name ws1 ws2 d post where
    d: "drop p s = name @ ws1 @ CHR ''='' # ws2 @ d # post"
    and k: "e - p = length name + length ws1 + 1 + length ws2 + 1"
    and r: "lower name = lower f" "list_all is_space ws1" "list_all is_space ws2"
           "d = CHR ''{'' \<or> d = dquote"
    by blast
  have "s = take p s @ drop p s" by simp
  then have s: "s = take p s @ name @ ws1 @ CHR ''='' # ws2 @ d # post"
    unfolding d .
  have l: "length (take p s) = p" using a by simp
  have e: "e = p + length name + length ws1 + 1 + length ws2 + 1" using a k by linarith
  show "pattern_matches f s p e"
    unfolding pattern_matches_def
    by (rule exI[of _ "take p s"], rule exI[of _ name], rule exI[of _ ws1],
        rule exI[of _ ws2], rule exI[of _ d], rule exI[of _ post])
       (intro conjI s l e r)
qed

lemma pattern_search_first:
  assumes m: "pattern_matches f s p e"
    and first: "\<forall>p' e'. p' < p \<longrightarrow> \<not> pattern_matches f s p' e'"
  shows "pattern_search f s = Some (p, e)"
proof -
  let ?P = "\<lambda>q. match_prefix f (drop q s) \<noteq> None"
  from m have pl: "p \<le> length s" and pe: "p \<le> e"
    and mp: "match_prefix f (drop p s) = Some (e - p)"
    by (simp_all add: pattern_matches_iff)
  have nP: "\<not> ?P q" if "q < p" for q
  proof
    assume "?P q"
    then obtain k where "match_prefix f (drop q s) = Some k" by auto
    with that pl have "pattern_matches f s q (q + k)" by (simp add: pattern_matches_iff)
    with first that show False by blast
  qed
  have "List.find ?P [0..<length s + 1] = Some p"
    using pl mp nP by (intro find_upt_first) auto
  then show ?thesis using mp pe by (simp only: pattern_search_def) simp
qed

lemma pattern_search_none:
  assumes "\<forall>p e. \<not> pattern_matches f s p e"
  shows "pattern_search f s = None"
proof -
  have "match_prefix f (drop q s) = None" if "q \<le> length s" for q
  proof (rule ccontr)
    assume "match_prefix f (drop q s) \<noteq> None"
    then obtain k where "match_prefix f (drop q s) = Some k" by auto
    with that have "pattern_matches f s q (q + k)" by (simp add: pattern_matches_iff)
    with assms show False by blast
  qed
  then have "List.find (\<lambda>q. match_prefix f (drop q s) \<noteq> None) [0..<length s + 1] = None"
    by (intro find_upt_none) auto
  then show ?thesis by (simp only: pattern_search_def) simp
qed

lemma no_match_below:
  assumes "list_all (\<lambda>q. match_prefix f (drop q s) = None) [0..<n]"
  shows "\<forall>p e. p < n \<longrightarrow> \<not> pattern_matches f s p e"
proof (intro allI impI notI)
  fix p e
  assume "p < n" and "pattern_matches f s p e"
  then have "match_prefix f (drop p s) = None" and "match_prefix f (drop p s) = Some (e - p)"
    using assms by (simp_all add: list_all_iff pattern_matches_iff)
  then show False by simp
qed

text \<open>
  C3. Field lookup does not depend on letter case: two field names with the same lower
  case give the same result on every text, \<^verbatim>\<open>Year\<close> and \<^verbatim>\<open>year\<close> among them. Only the
  first match is used: when the pattern (the name in any case, white space, an equals
  sign, white space, a brace or a double quote) matches from \<open>p\<close> to \<open>e\<close> and at no
  position before \<open>p\<close>, the result is that of the value scanner started at the delimiter,
  index \<open>e - 1\<close>; when the pattern matches nowhere the result is \<^verbatim>\<open>None\<close>.
\<close>

theorem extract_field_value_case_insensitive:
  "(lower field_name = lower field_name' \<longrightarrow>
      extract_field_value text field_name = extract_field_value text field_name')
   \<and> extract_field_value text ''Year'' = extract_field_value text ''year''
   \<and> (\<forall>p e. pattern_matches field_name text p e \<and>
             (\<forall>p' e'. p' < p \<longrightarrow> \<not> pattern_matches field_name text p' e')
        \<longrightarrow> extract_field_value text field_name =
              (if text ! (e - 1) = CHR ''{'' then extract_braced_value text (e - 1)
               else extract_quoted_value text (e - 1)))
   \<and> ((\<forall>p e. \<not> pattern_matches field_name text p e)
        \<longrightarrow> extract_field_value text field_name = None)"
proof (intro conjI impI allI)
  assume "lower field_name = lower field_name'"
  then show "extract_field_value text field_name = extract_field_value text field_name'"
    by (rule extract_field_value_ci)
next
  have "lower ''Year'' = lower ''year''" by code_simp
  then show "extract_field_value text ''Year'' = extract_field_value text ''year''"
    by (rule extract_field_value_ci)
next
  fix p e
  assume "pattern_matches field_name text p e \<and>
          (\<forall>p' e'. p' < p \<longrightarrow> \<not> pattern_matches field_name text p' e')"
  then have "pattern_search field_name text = Some (p, e)"
    using pattern_search_first by blast
  then show "extract_field_value text field_name =
              (if text ! (e - 1) = CHR ''{'' then extract_braced_value text (e - 1)
               else extract_quoted_value text (e - 1))"
    by (simp add: extract_field_value_def Let_def)
next
  assume "\<forall>p e. \<not> pattern_matches field_name text p e"
  then have "pattern_search field_name text = None" by (rule pattern_search_none)
  then show "extract_field_value text field_name = None"
    by (simp add: extract_field_value_def)
qed

theorem extract_field_value_case_insensitive_witness:
  "extract_field_value ''@a{k, Year = {2020}, year = {1999}}'' ''YEAR''
     = extract_field_value ''@a{k, Year = {2020}, year = {1999}}'' ''year''
   \<and> extract_field_value ''@a{k, Year = {2020}, year = {1999}}'' ''year'' = Some ''2020''
   \<and> extract_field_value ''title = {X}'' ''year'' = None"
proof (intro conjI)
  let ?t = "''@a{k, Year = {2020}, year = {1999}}''"
  have "lower ''YEAR'' = lower ''year''" by code_simp
  with extract_field_value_case_insensitive[of "''YEAR''" "''year''" ?t]
  show "extract_field_value ?t ''YEAR'' = extract_field_value ?t ''year''" by blast
  have "match_prefix ''year'' (drop 6 ?t) = Some 8" by code_simp
  then have m: "pattern_matches ''year'' ?t 6 14" by (simp add: pattern_matches_iff)
  have "list_all (\<lambda>q. match_prefix ''year'' (drop q ?t) = None) [0..<6]" by code_simp
  then have first: "\<forall>p' e'. p' < 6 \<longrightarrow> \<not> pattern_matches ''year'' ?t p' e'"
    by (rule no_match_below)
  have v: "(if ?t ! (14 - 1) = CHR ''{'' then extract_braced_value ?t (14 - 1)
            else extract_quoted_value ?t (14 - 1)) = Some ''2020''"
    by code_simp
  from extract_field_value_case_insensitive[of "''year''" "''year''" ?t] m first
  have "extract_field_value ?t ''year'' =
          (if ?t ! (14 - 1) = CHR ''{'' then extract_braced_value ?t (14 - 1)
           else extract_quoted_value ?t (14 - 1))"
    by blast
  with v show "extract_field_value ?t ''year'' = Some ''2020''" by simp
next
  let ?t = "''title = {X}''"
  have "list_all (\<lambda>q. match_prefix ''year'' (drop q ?t) = None) [0..<Suc (length ?t)]"
    by code_simp
  then have below: "\<forall>p e. p < Suc (length ?t) \<longrightarrow> \<not> pattern_matches ''year'' ?t p e"
    by (rule no_match_below)
  have "\<forall>p e. \<not> pattern_matches ''year'' ?t p e"
  proof (intro allI notI)
    fix p e
    assume pm: "pattern_matches ''year'' ?t p e"
    then have "p < Suc (length ?t)" unfolding pattern_matches_iff by simp
    with below pm show False by blast
  qed
  with extract_field_value_case_insensitive[of "''year''" "''year''" ?t]
  show "extract_field_value ?t ''year'' = None" by blast
qed

section \<open>Proofs: the journal names\<close>

lemma JOURNAL_EXPANSIONS_range:
  "map_of JOURNAL_EXPANSIONS k = Some full \<Longrightarrow>
     full = ''Communications of the ACM'' \<or> full = ''Journal of Cryptology''"
  by (auto simp: JOURNAL_EXPANSIONS_def split: if_splits)

lemma expand_full_names:
  "expand_journal_name (Some ''Communications of the ACM'') = Some ''Communications of the ACM''"
  "expand_journal_name (Some ''Journal of Cryptology'') = Some ''Journal of Cryptology''"
  by code_simp+

lemma expand_journal_name_miss:
  "map_of JOURNAL_EXPANSIONS (normalize_journal_name s) = None \<Longrightarrow>
     expand_journal_name (Some s) = Some s"
  by (simp add: expand_journal_name_def)

text \<open>
  C9. Expanding a journal name twice gives what expanding it once gives, for every value
  (absent, empty, an abbreviation of the table, an expanded name, any other name); and when
  the normalized key is not in the table the value comes back as it was given.
\<close>

theorem expand_journal_name_idempotent:
  "expand_journal_name (expand_journal_name v) = expand_journal_name v
   \<and> (\<forall>s. map_of JOURNAL_EXPANSIONS (normalize_journal_name s) = None
          \<longrightarrow> expand_journal_name (Some s) = Some s)"
proof (intro conjI allI impI)
  show "expand_journal_name (expand_journal_name v) = expand_journal_name v"
  proof (cases v)
    case None
    then show ?thesis by (simp add: expand_journal_name_def)
  next
    case (Some s)
    show ?thesis
    proof (cases "s = []")
      case True
      with Some show ?thesis by (simp add: expand_journal_name_def)
    next
      case False
      show ?thesis
      proof (cases "map_of JOURNAL_EXPANSIONS (normalize_journal_name s)")
        case None
        with Some False show ?thesis by (simp add: expand_journal_name_def)
      next
        case (Some full)
        with False \<open>v = Some s\<close> have e: "expand_journal_name v = Some full"
          by (simp add: expand_journal_name_def)
        from JOURNAL_EXPANSIONS_range[OF Some] expand_full_names
        have "expand_journal_name (Some full) = Some full" by auto
        with e show ?thesis by simp
      qed
    qed
  qed
next
  fix s
  assume "map_of JOURNAL_EXPANSIONS (normalize_journal_name s) = None"
  then show "expand_journal_name (Some s) = Some s" by (rule expand_journal_name_miss)
qed

theorem expand_journal_name_idempotent_witness:
  "expand_journal_name (Some ''{Commun.} ACM'') = Some ''Communications of the ACM''
   \<and> expand_journal_name (expand_journal_name (Some ''{Commun.} ACM''))
       = expand_journal_name (Some ''{Commun.} ACM'')
   \<and> expand_journal_name (Some ''J. {ACM}'') = Some ''J. {ACM}''"
proof (intro conjI)
  show "expand_journal_name (Some ''{Commun.} ACM'') = Some ''Communications of the ACM''"
    by code_simp
  from expand_journal_name_idempotent[of "Some ''{Commun.} ACM''"]
  show "expand_journal_name (expand_journal_name (Some ''{Commun.} ACM''))
       = expand_journal_name (Some ''{Commun.} ACM'')" by (rule conjunct1)
  have "map_of JOURNAL_EXPANSIONS (normalize_journal_name ''J. {ACM}'') = None" by code_simp
  with expand_journal_name_idempotent[of None]
  show "expand_journal_name (Some ''J. {ACM}'') = Some ''J. {ACM}''" by blast
qed

section \<open>Proofs: substring matching of field names\<close>

text \<open>
  C10. The field name is matched anywhere, with no word boundary: in a text whose only
  field is \<^verbatim>\<open>booktitle = {X}\<close> the pattern for \<^verbatim>\<open>title\<close> matches inside \<^verbatim>\<open>booktitle\<close>, from
  index 4 to index 13, and the extraction of \<^verbatim>\<open>title\<close> returns \<^verbatim>\<open>X\<close>, not \<^verbatim>\<open>None\<close>.
\<close>

theorem extract_title_inside_booktitle:
  "pattern_search ''title'' ''booktitle = {X}'' = Some (4, 13)
   \<and> extract_field_value ''booktitle = {X}'' ''title'' = Some ''X''"
  by code_simp

section \<open>Proofs: the menu cursor\<close>

lemma selector_key_down:
  "hits \<noteq> [] \<Longrightarrow> key = KEY_DOWN \<or> key = 106 \<Longrightarrow>
     selector_key hits idx key = Active ((idx + 1) mod int (length hits))"
  by (auto simp: selector_key_def KEY_DOWN_def KEY_UP_def)

lemma selector_key_up:
  "hits \<noteq> [] \<Longrightarrow> key = KEY_UP \<or> key = 107 \<Longrightarrow>
     selector_key hits idx key = Active ((idx - 1) mod int (length hits))"
  by (auto simp: selector_key_def KEY_DOWN_def KEY_UP_def)

lemma selector_key_range:
  assumes "hits \<noteq> []" "0 \<le> idx" "idx < int (length hits)"
    and "selector_key hits idx key = Active idx'"
  shows "0 \<le> idx' \<and> idx' < int (length hits)"
proof -
  have n: "0 < int (length hits)" using assms(1) by simp
  have "0 \<le> (idx - 1) mod int (length hits)" "(idx - 1) mod int (length hits) < int (length hits)"
    "0 \<le> (idx + 1) mod int (length hits)" "(idx + 1) mod int (length hits) < int (length hits)"
    using n by (simp_all only: pos_mod_sign pos_mod_bound)
  with assms show ?thesis
    by (auto simp: selector_key_def split: if_splits)
qed

lemma selector_loop_range:
  "hits \<noteq> [] \<Longrightarrow> 0 \<le> idx \<Longrightarrow> idx < int (length hits) \<Longrightarrow>
   selector_loop hits idx keys = Active idx' \<Longrightarrow> 0 \<le> idx' \<and> idx' < int (length hits)"
proof (induction keys arbitrary: idx)
  case Nil
  then show ?case by simp
next
  case (Cons key keys)
  from Cons.prems(4) obtain i where k: "selector_key hits idx key = Active i"
    and l: "selector_loop hits i keys = Active idx'"
    by (auto split: menu.splits)
  from selector_key_range[OF Cons.prems(1-3) k] have "0 \<le> i" "i < int (length hits)" by simp_all
  from Cons.IH[OF Cons.prems(1) this l] show ?case .
qed

lemma selector_loop_down:
  "hits \<noteq> [] \<Longrightarrow> 0 \<le> idx \<Longrightarrow> idx < int (length hits) \<Longrightarrow>
   selector_loop hits idx (replicate k KEY_DOWN) = Active ((idx + int k) mod int (length hits))"
proof (induction k arbitrary: idx)
  case 0
  then show ?case by simp
next
  case (Suc k)
  let ?n = "int (length hits)"
  have n: "0 < ?n" using Suc.prems(1) by simp
  have r: "0 \<le> (idx + 1) mod ?n" "(idx + 1) mod ?n < ?n"
    using n by (simp_all only: pos_mod_sign pos_mod_bound)
  have "selector_loop hits idx (replicate (Suc k) KEY_DOWN)
          = selector_loop hits ((idx + 1) mod ?n) (replicate k KEY_DOWN)"
    using Suc.prems(1) by (simp add: selector_key_down)
  also have "\<dots> = Active (((idx + 1) mod ?n + int k) mod ?n)"
    using Suc.prems(1) r by (rule Suc.IH)
  also have "((idx + 1) mod ?n + int k) mod ?n = ((idx + 1) + int k) mod ?n"
    by (rule mod_add_left_eq)
  also have "(idx + 1) + int k = idx + int (Suc k)" by simp
  finally show ?case .
qed

text \<open>
  C8. With a list of N candidates (N at least 1) and the cursor in range: a "next" key
  (arrow down or j) moves the cursor to \<open>(idx + 1) mod N\<close>, a "previous" key (arrow up or
  k) to \<open>(idx - 1) mod N\<close>; N "next" keys in a row bring the cursor back where it was;
  and after any sequence of keys that leaves the menu open the cursor is at least 0 and
  less than N, from any cursor in range and so from the initial cursor 0.
\<close>

theorem selector_cursor_cyclic:
  assumes "hits \<noteq> []" and "0 \<le> idx" and "idx < int (length hits)"
  shows "(\<forall>key. key = KEY_DOWN \<or> key = 106 \<longrightarrow>
            selector_key hits idx key = Active ((idx + 1) mod int (length hits)))
       \<and> (\<forall>key. key = KEY_UP \<or> key = 107 \<longrightarrow>
            selector_key hits idx key = Active ((idx - 1) mod int (length hits)))
       \<and> selector_loop hits idx (replicate (length hits) KEY_DOWN) = Active idx
       \<and> (\<forall>keys idx'. selector_loop hits idx keys = Active idx' \<longrightarrow>
            0 \<le> idx' \<and> idx' < int (length hits))
       \<and> (\<forall>keys idx'. selector hits keys = Active idx' \<longrightarrow>
            0 \<le> idx' \<and> idx' < int (length hits))"
proof (intro conjI allI impI)
  fix key
  assume "key = KEY_DOWN \<or> key = 106"
  with assms(1) show "selector_key hits idx key = Active ((idx + 1) mod int (length hits))"
    by (rule selector_key_down)
next
  fix key
  assume "key = KEY_UP \<or> key = 107"
  with assms(1) show "selector_key hits idx key = Active ((idx - 1) mod int (length hits))"
    by (rule selector_key_up)
next
  have "selector_loop hits idx (replicate (length hits) KEY_DOWN)
          = Active ((idx + int (length hits)) mod int (length hits))"
    using assms by (rule selector_loop_down)
  also have "(idx + int (length hits)) mod int (length hits) = idx"
    using assms(2,3) by simp
  finally show "selector_loop hits idx (replicate (length hits) KEY_DOWN) = Active idx" .
next
  fix keys idx'
  assume "selector_loop hits idx keys = Active idx'"
  with assms show "0 \<le> idx'" "idx' < int (length hits)"
    using selector_loop_range by blast+
next
  fix keys idx'
  assume "selector hits keys = Active idx'"
  then have "selector_loop hits 0 keys = Active idx'" by (simp add: selector_def)
  moreover have "(0::int) < int (length hits)" using assms(1) by simp
  ultimately show "0 \<le> idx'" "idx' < int (length hits)"
    using selector_loop_range[OF assms(1), of 0 keys idx'] by simp_all
qed

theorem selector_cursor_cyclic_witness:
  "selector_key [''a'', ''b'', ''c''] 2 KEY_DOWN = Active 0
   \<and> selector_key [''a'', ''b'', ''c''] 0 KEY_UP = Active 2
   \<and> selector_loop [''a'', ''b'', ''c''] 1 [KEY_DOWN, KEY_DOWN, KEY_DOWN] = Active 1"
proof (intro conjI)
  let ?hits = "[''a'', ''b'', ''c'']"
  have h: "?hits \<noteq> []" by simp
  have r0: "(0::int) \<le> 0" "(0::int) < int (length ?hits)"
    and r1: "(0::int) \<le> 1" "(1::int) < int (length ?hits)"
    and r2: "(0::int) \<le> 2" "(2::int) < int (length ?hits)"
    by simp_all
  have rep: "replicate (length ?hits) KEY_DOWN = [KEY_DOWN, KEY_DOWN, KEY_DOWN]"
    by (simp add: numeral_3_eq_3)
  from selector_cursor_cyclic[OF h r2]
  have "selector_key ?hits 2 KEY_DOWN = Active ((2 + 1) mod int (length ?hits))" by blast
  moreover have "(2 + 1) mod int (length ?hits) = 0" by simp
  ultimately show "selector_key ?hits 2 KEY_DOWN = Active 0" by simp
  from selector_cursor_cyclic[OF h r0]
  have "selector_key ?hits 0 KEY_UP = Active ((0 - 1) mod int (length ?hits))" by blast
  moreover have "(0 - 1) mod int (length ?hits) = 2" by simp
  ultimately show "selector_key ?hits 0 KEY_UP = Active 2" by simp
  from selector_cursor_cyclic[OF h r1]
  have "selector_loop ?hits 1 (replicate (length ?hits) KEY_DOWN) = Active 1" by blast
  then show "selector_loop ?hits 1 [KEY_DOWN, KEY_DOWN, KEY_DOWN] = Active 1"
    unfolding rep .
qed

section \<open>Proofs: the crossref merge\<close>

lemma dict_get_update:
  "dict_get (AList.update k v fs) n = (if n = k then v else dict_get fs n)"
  by (simp add: dict_get_def update_conv')

lemma dict_get_fill_missing:
  "dict_get (fill_missing cb name fs) n =
     (if n = name \<and> \<not> truthy (dict_get fs name) then extract_field_value cb name
      else dict_get fs n)"
  by (simp add: fill_missing_def dict_get_update)

lemma map_of_fill_missing_other:
  "n \<noteq> name \<Longrightarrow> map_of (fill_missing cb name fs) n = map_of fs n"
  by (simp add: fill_missing_def update_conv')

lemma three_names_distinct:
  "''booktitle'' \<noteq> ''series''" "''booktitle'' \<noteq> ''year''" "''series'' \<noteq> ''year''"
  by simp_all

lemma dict_get_filled:
  "dict_get (fold (fill_missing cb) [''booktitle'', ''series'', ''year''] fs) n =
     (if (n = ''booktitle'' \<or> n = ''series'' \<or> n = ''year'') \<and> \<not> truthy (dict_get fs n)
      then extract_field_value cb n else dict_get fs n)"
proof -
  let ?f1 = "fill_missing cb ''booktitle'' fs"
  let ?f2 = "fill_missing cb ''series'' ?f1"
  let ?f3 = "fill_missing cb ''year'' ?f2"
  have f: "fold (fill_missing cb) [''booktitle'', ''series'', ''year''] fs = ?f3" by simp
  have g1: "dict_get ?f1 ''series'' = dict_get fs ''series''"
    "dict_get ?f1 ''year'' = dict_get fs ''year''"
    by (simp_all add: dict_get_fill_missing)
  have g2: "dict_get ?f2 ''year'' = dict_get fs ''year''"
    by (simp add: dict_get_fill_missing)
  consider "n = ''year''" | "n = ''series''" | "n = ''booktitle''"
    | "n \<noteq> ''year''" "n \<noteq> ''series''" "n \<noteq> ''booktitle''" by blast
  then show ?thesis
  proof cases
    case 1
    then show ?thesis unfolding f by (simp add: dict_get_fill_missing[of cb "''year''"] g2)
  next
    case 2
    then have "dict_get ?f3 n = dict_get ?f2 n"
      by (simp add: dict_get_fill_missing[of cb "''year''"])
    also have "\<dots> = (if \<not> truthy (dict_get fs ''series'') then extract_field_value cb ''series''
                       else dict_get ?f1 n)"
      using 2 by (simp add: dict_get_fill_missing[of cb "''series''"] g1)
    also have "dict_get ?f1 n = dict_get fs n"
      using 2 by (simp add: dict_get_fill_missing[of cb "''booktitle''"])
    finally show ?thesis unfolding f using 2 by simp
  next
    case 3
    then have "dict_get ?f3 n = dict_get ?f2 n"
      by (simp add: dict_get_fill_missing[of cb "''year''"])
    also have "\<dots> = dict_get ?f1 n"
      using 3 by (simp add: dict_get_fill_missing[of cb "''series''"])
    also have "\<dots> = (if \<not> truthy (dict_get fs ''booktitle'')
                       then extract_field_value cb ''booktitle'' else dict_get fs n)"
      using 3 by (simp add: dict_get_fill_missing[of cb "''booktitle''"])
    finally show ?thesis unfolding f using 3 by simp
  next
    case 4
    then have "dict_get ?f3 n = dict_get fs n"
      by (simp add: dict_get_fill_missing)
    with 4 show ?thesis unfolding f by simp
  qed
qed

lemma map_of_filled_other:
  assumes "n \<noteq> ''booktitle''" "n \<noteq> ''series''" "n \<noteq> ''year''"
  shows "map_of (fold (fill_missing cb) [''booktitle'', ''series'', ''year''] fs) n = map_of fs n"
  using assms by (simp add: map_of_fill_missing_other)

lemma merge_crossref_fields_cases:
  "merge_crossref_fields fetch bibtex fields = Inr fields \<or>
   (\<exists>key cb. \<not> truthy (dict_get fields ''booktitle'') \<and> \<not> truthy (dict_get fields ''series'') \<and>
        extract_field_value bibtex ''crossref'' = Some key \<and> key \<noteq> [] \<and> fetch key = Inr cb \<and>
        merge_crossref_fields fetch bibtex fields =
          Inr (fold (fill_missing cb) [''booktitle'', ''series'', ''year''] fields))"
  unfolding merge_crossref_fields_def Let_def
  by (auto split: option.splits sum.splits)

text \<open>
  C4. Whatever the fetch of the referenced record raises, the merge swallows it and
  returns the fields it was given, unchanged; and for every fetch function, text and field
  set the merge returns a field set: it never raises.
\<close>

theorem merge_crossref_fields_failure_swallowed:
  "(\<forall>key exc. extract_field_value bibtex ''crossref'' = Some key \<and>
              fetch_bibtex_entry key = Inl exc
        \<longrightarrow> merge_crossref_fields fetch_bibtex_entry bibtex fields = Inr fields)
   \<and> (\<forall>exc. merge_crossref_fields fetch_bibtex_entry bibtex fields \<noteq> Inl exc)"
proof (intro conjI allI impI)
  fix key exc
  assume "extract_field_value bibtex ''crossref'' = Some key \<and> fetch_bibtex_entry key = Inl exc"
  then show "merge_crossref_fields fetch_bibtex_entry bibtex fields = Inr fields"
    by (simp add: merge_crossref_fields_def)
next
  fix exc
  from merge_crossref_fields_cases[of fetch_bibtex_entry bibtex fields]
  show "merge_crossref_fields fetch_bibtex_entry bibtex fields \<noteq> Inl exc" by auto
qed

theorem merge_crossref_fields_failure_swallowed_witness:
  "merge_crossref_fields (\<lambda>key. Inl (Exception ''HTTP Error 404: Not Found''))
     ''@inproceedings{k, title = {T}, crossref = {conf/x/2020}}''
     [(''title'', Some ''T''), (''booktitle'', None), (''year'', None)]
   = Inr [(''title'', Some ''T''), (''booktitle'', None), (''year'', None)]"
proof -
  let ?fetch = "\<lambda>key :: string. Inl (Exception ''HTTP Error 404: Not Found'') :: exception + string"
  let ?b = "''@inproceedings{k, title = {T}, crossref = {conf/x/2020}}''"
  have c: "extract_field_value ?b ''crossref'' = Some ''conf/x/2020''" by code_simp
  have f: "?fetch ''conf/x/2020'' = Inl (Exception ''HTTP Error 404: Not Found'')" by simp
  from merge_crossref_fields_failure_swallowed[of ?b ?fetch] c f
  show ?thesis by blast
qed

text \<open>
  C5. The merge returns its input unchanged when \<^verbatim>\<open>booktitle\<close> or \<^verbatim>\<open>series\<close> is present
  (bound to a string that is not empty). In every case, each field that was present has the
  same value afterwards, every key other than \<^verbatim>\<open>booktitle\<close>, \<^verbatim>\<open>series\<close> and \<^verbatim>\<open>year\<close> is
  bound as before, and a value differs from before only for one of these three names that
  was not present. When the crossref record is fetched, each of the three that was not
  present gets what the extractor finds for it in the fetched record.
\<close>

theorem merge_crossref_fields_frame:
  "(truthy (dict_get fields ''booktitle'') \<or> truthy (dict_get fields ''series'')
      \<longrightarrow> merge_crossref_fields fetch_bibtex_entry bibtex fields = Inr fields)
   \<and> (\<forall>fields'. merge_crossref_fields fetch_bibtex_entry bibtex fields = Inr fields' \<longrightarrow>
         (\<forall>name. truthy (dict_get fields name) \<longrightarrow> dict_get fields' name = dict_get fields name)
       \<and> (\<forall>name. name \<noteq> ''booktitle'' \<and> name \<noteq> ''series'' \<and> name \<noteq> ''year''
             \<longrightarrow> map_of fields' name = map_of fields name)
       \<and> (\<forall>name. dict_get fields' name \<noteq> dict_get fields name \<longrightarrow>
             (name = ''booktitle'' \<or> name = ''series'' \<or> name = ''year'') \<and>
             \<not> truthy (dict_get fields name)))
   \<and> (\<forall>key crossref_bibtex.
         \<not> truthy (dict_get fields ''booktitle'') \<and> \<not> truthy (dict_get fields ''series'') \<and>
         extract_field_value bibtex ''crossref'' = Some key \<and> key \<noteq> [] \<and>
         fetch_bibtex_entry key = Inr crossref_bibtex
       \<longrightarrow> (\<exists>fields'. merge_crossref_fields fetch_bibtex_entry bibtex fields = Inr fields' \<and>
             (\<forall>name. (name = ''booktitle'' \<or> name = ''series'' \<or> name = ''year'') \<and>
                     \<not> truthy (dict_get fields name)
                \<longrightarrow> dict_get fields' name = extract_field_value crossref_bibtex name)))"
proof (intro conjI)
  show "truthy (dict_get fields ''booktitle'') \<or> truthy (dict_get fields ''series'')
      \<longrightarrow> merge_crossref_fields fetch_bibtex_entry bibtex fields = Inr fields"
    by (simp add: merge_crossref_fields_def)
next
  show "\<forall>fields'. merge_crossref_fields fetch_bibtex_entry bibtex fields = Inr fields' \<longrightarrow>
         (\<forall>name. truthy (dict_get fields name) \<longrightarrow> dict_get fields' name = dict_get fields name)
       \<and> (\<forall>name. name \<noteq> ''booktitle'' \<and> name \<noteq> ''series'' \<and> name \<noteq> ''year''
             \<longrightarrow> map_of fields' name = map_of fields name)
       \<and> (\<forall>name. dict_get fields' name \<noteq> dict_get fields name \<longrightarrow>
             (name = ''booktitle'' \<or> name = ''series'' \<or> name = ''year'') \<and>
             \<not> truthy (dict_get fields name))"
  proof (intro allI impI)
    fix fields'
    assume r: "merge_crossref_fields fetch_bibtex_entry bibtex fields = Inr fields'"
    define filled where
      "filled cb = fold (fill_missing cb) [''booktitle'', ''series'', ''year''] fields" for cb
    have g: "dict_get (filled cb) n =
               (if (n = ''booktitle'' \<or> n = ''series'' \<or> n = ''year'') \<and>
                   \<not> truthy (dict_get fields n)
                then extract_field_value cb n else dict_get fields n)" for cb n
      unfolding filled_def by (rule dict_get_filled)
    have h: "map_of (filled cb) n = map_of fields n"
      if "n \<noteq> ''booktitle''" "n \<noteq> ''series''" "n \<noteq> ''year''" for cb n
      unfolding filled_def using that by (rule map_of_filled_other)
    from merge_crossref_fields_cases[of fetch_bibtex_entry bibtex fields] r
    consider "fields' = fields" | cb where "fields' = filled cb"
      unfolding filled_def by auto
    then show "(\<forall>name. truthy (dict_get fields name) \<longrightarrow> dict_get fields' name = dict_get fields name)
       \<and> (\<forall>name. name \<noteq> ''booktitle'' \<and> name \<noteq> ''series'' \<and> name \<noteq> ''year''
             \<longrightarrow> map_of fields' name = map_of fields name)
       \<and> (\<forall>name. dict_get fields' name \<noteq> dict_get fields name \<longrightarrow>
             (name = ''booktitle'' \<or> name = ''series'' \<or> name = ''year'') \<and>
             \<not> truthy (dict_get fields name))"
    proof cases
      case 1
      then show ?thesis by simp
    next
      case 2
      show ?thesis
        unfolding 2 by (intro conjI allI impI) (simp_all add: g h split: if_splits)
    qed
  qed
next
  show "\<forall>key crossref_bibtex.
         \<not> truthy (dict_get fields ''booktitle'') \<and> \<not> truthy (dict_get fields ''series'') \<and>
         extract_field_value bibtex ''crossref'' = Some key \<and> key \<noteq> [] \<and>
         fetch_bibtex_entry key = Inr crossref_bibtex
       \<longrightarrow> (\<exists>fields'. merge_crossref_fields fetch_bibtex_entry bibtex fields = Inr fields' \<and>
             (\<forall>name. (name = ''booktitle'' \<or> name = ''series'' \<or> name = ''year'') \<and>
                     \<not> truthy (dict_get fields name)
                \<longrightarrow> dict_get fields' name = extract_field_value crossref_bibtex name))"
  proof (intro allI impI)
    fix key cb
    assume a: "\<not> truthy (dict_get fields ''booktitle'') \<and> \<not> truthy (dict_get fields ''series'') \<and>
         extract_field_value bibtex ''crossref'' = Some key \<and> key \<noteq> [] \<and>
         fetch_bibtex_entry key = Inr cb"
    then have m: "merge_crossref_fields fetch_bibtex_entry bibtex fields =
              Inr (fold (fill_missing cb) [''booktitle'', ''series'', ''year''] fields)"
      unfolding merge_crossref_fields_def Let_def by simp
    show "\<exists>fields'. merge_crossref_fields fetch_bibtex_entry bibtex fields = Inr fields' \<and>
             (\<forall>name. (name = ''booktitle'' \<or> name = ''series'' \<or> name = ''year'') \<and>
                     \<not> truthy (dict_get fields name)
                \<longrightarrow> dict_get fields' name = extract_field_value cb name)"
    proof (intro exI conjI allI impI)
      show "merge_crossref_fields fetch_bibtex_entry bibtex fields =
              Inr (fold (fill_missing cb) [''booktitle'', ''series'', ''year''] fields)"
        by (rule m)
    next
      fix name
      assume "(name = ''booktitle'' \<or> name = ''series'' \<or> name = ''year'') \<and>
                \<not> truthy (dict_get fields name)"
      then show "dict_get (fold (fill_missing cb) [''booktitle'', ''series'', ''year''] fields) name
                  = extract_field_value cb name"
        by (simp only: dict_get_filled if_True simp_thms)
    qed
  qed
qed

theorem merge_crossref_fields_frame_witness:
  "merge_crossref_fields (\<lambda>key. Inr ''@proceedings{x, booktitle = {Proc. X}, year = {1999}}'')
     ''@inproceedings{k, title = {T}, crossref = {conf/x/2020}}''
     [(''booktitle'', Some ''P''), (''year'', None)]
   = Inr [(''booktitle'', Some ''P''), (''year'', None)]
   \<and> (\<exists>fields'.
        merge_crossref_fields (\<lambda>key. Inr ''@proceedings{x, booktitle = {Proc. X}, year = {1999}}'')
          ''@inproceedings{k, title = {T}, crossref = {conf/x/2020}}''
          [(''title'', Some ''T''), (''booktitle'', None), (''year'', Some ''2020'')]
        = Inr fields'
        \<and> dict_get fields' ''booktitle'' = Some ''Proc. X''
        \<and> dict_get fields' ''year'' = Some ''2020''
        \<and> dict_get fields' ''title'' = Some ''T'')"
proof -
  define cb where "cb = ''@proceedings{x, booktitle = {Proc. X}, year = {1999}}''"
  define fetch where "fetch = (\<lambda>key :: string. Inr cb :: exception + string)"
  define b where "b = ''@inproceedings{k, title = {T}, crossref = {conf/x/2020}}''"
  define fs1 where "fs1 = [(''booktitle'', Some ''P''), (''year'', None :: string option)]"
  define fs2 where
    "fs2 = [(''title'', Some ''T''), (''booktitle'', None), (''year'', Some ''2020'')]"
  define key where "key = ''conf/x/2020''"
  have p1: "truthy (dict_get fs1 ''booktitle'')" unfolding fs1_def by code_simp
  have one: "merge_crossref_fields fetch b fs1 = Inr fs1"
    using merge_crossref_fields_frame[of fs1 fetch b] p1 by blast
  have a: "\<not> truthy (dict_get fs2 ''booktitle'')" "\<not> truthy (dict_get fs2 ''series'')"
    "truthy (dict_get fs2 ''year'')" "truthy (dict_get fs2 ''title'')"
    unfolding fs2_def by code_simp+
  have c: "extract_field_value b ''crossref'' = Some key" unfolding b_def key_def by code_simp
  have k: "key \<noteq> []" unfolding key_def by simp
  have f: "fetch key = Inr cb" unfolding fetch_def by simp
  note t = merge_crossref_fields_frame[of fs2 fetch b]
  from t have t3: "\<not> truthy (dict_get fs2 ''booktitle'') \<and> \<not> truthy (dict_get fs2 ''series'') \<and>
         extract_field_value b ''crossref'' = Some key \<and> key \<noteq> [] \<and> fetch key = Inr cb
       \<longrightarrow> (\<exists>fields'. merge_crossref_fields fetch b fs2 = Inr fields' \<and>
             (\<forall>name. (name = ''booktitle'' \<or> name = ''series'' \<or> name = ''year'') \<and>
                     \<not> truthy (dict_get fs2 name)
                \<longrightarrow> dict_get fields' name = extract_field_value cb name))"
    by (elim conjE allE)
  with a(1,2) c k f obtain fields' where
    m: "merge_crossref_fields fetch b fs2 = Inr fields'"
    and filled: "\<forall>name. (name = ''booktitle'' \<or> name = ''series'' \<or> name = ''year'') \<and>
                     \<not> truthy (dict_get fs2 name)
                \<longrightarrow> dict_get fields' name = extract_field_value cb name"
    by auto
  from t have t2: "merge_crossref_fields fetch b fs2 = Inr fields' \<longrightarrow>
         (\<forall>name. truthy (dict_get fs2 name) \<longrightarrow> dict_get fields' name = dict_get fs2 name)"
    by blast
  with m have kept: "\<forall>name. truthy (dict_get fs2 name) \<longrightarrow>
                         dict_get fields' name = dict_get fs2 name"
    by blast
  have "dict_get fields' ''booktitle'' = extract_field_value cb ''booktitle''"
    using filled[rule_format, of "''booktitle''"] a(1) by simp
  moreover have "extract_field_value cb ''booktitle'' = Some ''Proc. X''"
    unfolding cb_def by code_simp
  ultimately have bt: "dict_get fields' ''booktitle'' = Some ''Proc. X''" by simp
  have "dict_get fields' ''year'' = dict_get fs2 ''year''"
    using kept[rule_format, of "''year''"] a(3) by simp
  moreover have "dict_get fs2 ''year'' = Some ''2020''" unfolding fs2_def by code_simp
  ultimately have y: "dict_get fields' ''year'' = Some ''2020''" by simp
  have "dict_get fields' ''title'' = dict_get fs2 ''title''"
    using kept[rule_format, of "''title''"] a(4) by simp
  moreover have "dict_get fs2 ''title'' = Some ''T''" unfolding fs2_def by code_simp
  ultimately have ti: "dict_get fields' ''title'' = Some ''T''" by simp
  have two: "\<exists>fields'. merge_crossref_fields fetch b fs2 = Inr fields'
        \<and> dict_get fields' ''booktitle'' = Some ''Proc. X''
        \<and> dict_get fields' ''year'' = Some ''2020''
        \<and> dict_get fields' ''title'' = Some ''T''"
    using m bt y ti by (intro exI[of _ fields'] conjI)
  from one two show ?thesis
    unfolding fetch_def cb_def b_def fs1_def fs2_def by (rule conjI)
qed

section \<open>Proofs: the renderer\<close>

lemma fold_render_field:
  "fold (render_field w fs) names lines =
     lines @ map (\<lambda>name. ''  '' @ ljust w name @ '' = {'' @
                          strip (collapse_ws (the (dict_get fs name))) @ ''},'')
               (filter (\<lambda>name. truthy (dict_get fs name)) names)"
proof (induction names arbitrary: lines)
  case Nil
  then show ?case by simp
next
  case (Cons name names)
  show ?case
  proof (cases "dict_get fs name")
    case None
    then show ?thesis using Cons.IH by (simp add: render_field_def truthy_def)
  next
    case (Some v)
    then show ?thesis using Cons.IH by (simp add: render_field_def truthy_def Let_def)
  qed
qed

lemma FIELD_ORDER_width: "Max (set (map length FIELD_ORDER)) = 9"
  by code_simp

lemma FIELD_ORDER_padded:
  "\<forall>name \<in> set FIELD_ORDER. length (name @ replicate (9 - length name) CHR '' '') = 9"
  by (simp add: FIELD_ORDER_def)

lemma render_lines_eq:
  "render_lines entry_type entry_key fields =
     [''%'', ''@'' @ entry_type @ ''{'' @ entry_key @ '',''] @
     map (\<lambda>name. ''  '' @ name @ replicate (9 - length name) CHR '' '' @ '' = {'' @
                 strip (collapse_ws (the (dict_get fields name))) @ ''},'')
         (filter (\<lambda>name. truthy (dict_get fields name)) FIELD_ORDER) @
     [''}'']"
  unfolding render_lines_def Let_def FIELD_ORDER_width fold_render_field ljust_def
  by simp

lemma render_field_cong:
  assumes "\<forall>name. dict_get fields name = dict_get fields' name"
  shows "render_field w fields = render_field w fields'"
  using assms by (intro ext) (simp add: render_field_def)

text \<open>
  C6. The lines of the rendered entry are the comment line, the header, one line for each
  name of the fixed order that is bound to a string that is not empty, in the fixed order,
  and the closing brace: a field that is missing, \<^verbatim>\<open>None\<close> or empty has no line. Each
  field line is two spaces, the name padded with spaces to 9 columns, the equals sign and
  the value in braces; 9 is the length of the longest name of the fixed order, whatever
  fields are present. The text returned is these lines joined by newlines, and two field
  sets that bind every name alike (the same items in another order) render alike.
\<close>

theorem render_entry_layout:
  "render_lines entry_type entry_key fields =
     [''%'', ''@'' @ entry_type @ ''{'' @ entry_key @ '',''] @
     map (\<lambda>name. ''  '' @ name @ replicate (9 - length name) CHR '' '' @ '' = {'' @
                 strip (collapse_ws (the (dict_get fields name))) @ ''},'')
         (filter (\<lambda>name. truthy (dict_get fields name)) FIELD_ORDER) @
     [''}'']
   \<and> render_entry entry_type entry_key fields = join_lines (render_lines entry_type entry_key fields)
   \<and> FIELD_ORDER = [''author'', ''title'', ''journal'', ''booktitle'', ''series'',
                     ''volume'', ''number'', ''pages'', ''year'', ''doi'']
   \<and> Max (set (map length FIELD_ORDER)) = 9
   \<and> (\<forall>name \<in> set FIELD_ORDER. length (name @ replicate (9 - length name) CHR '' '') = 9)
   \<and> ((\<forall>name. dict_get fields name = dict_get fields' name) \<longrightarrow>
        render_entry entry_type entry_key fields = render_entry entry_type entry_key fields')"
proof (intro conjI impI)
  show "render_lines entry_type entry_key fields =
     [''%'', ''@'' @ entry_type @ ''{'' @ entry_key @ '',''] @
     map (\<lambda>name. ''  '' @ name @ replicate (9 - length name) CHR '' '' @ '' = {'' @
                 strip (collapse_ws (the (dict_get fields name))) @ ''},'')
         (filter (\<lambda>name. truthy (dict_get fields name)) FIELD_ORDER) @
     [''}'']"
    by (rule render_lines_eq)
  show "render_entry entry_type entry_key fields = join_lines (render_lines entry_type entry_key fields)"
    by (simp add: render_entry_def)
  show "FIELD_ORDER = [''author'', ''title'', ''journal'', ''booktitle'', ''series'',
                     ''volume'', ''number'', ''pages'', ''year'', ''doi'']"
    by (simp add: FIELD_ORDER_def)
  show "Max (set (map length FIELD_ORDER)) = 9" by (rule FIELD_ORDER_width)
  show "\<forall>name \<in> set FIELD_ORDER. length (name @ replicate (9 - length name) CHR '' '') = 9"
    by (rule FIELD_ORDER_padded)
next
  assume "\<forall>name. dict_get fields name = dict_get fields' name"
  then have "render_field w fields = render_field w fields'" for w
    by (rule render_field_cong)
  then show "render_entry entry_type entry_key fields = render_entry entry_type entry_key fields'"
    by (simp add: render_entry_def render_lines_def)
qed

theorem render_entry_layout_witness:
  "render_lines ''article'' ''Foo20''
     [(''year'', Some ''2020''), (''title'', Some ''Zero   Trust''), (''doi'', None),
      (''pages'', Some [])]
   = [''%'', ''@article{Foo20,'', ''  title     = {Zero Trust},'', ''  year      = {2020},'', ''}'']
   \<and> render_entry ''article'' ''Foo20'' [(''year'', Some ''2020''), (''title'', Some ''T'')]
     = render_entry ''article'' ''Foo20'' [(''title'', Some ''T''), (''year'', Some ''2020'')]"
proof
  let ?fs = "[(''year'', Some ''2020''), (''title'', Some ''Zero   Trust''), (''doi'', None),
      (''pages'', Some [])]"
  have e: "[''%'', ''@'' @ ''article'' @ ''{'' @ ''Foo20'' @ '',''] @
     map (\<lambda>name. ''  '' @ name @ replicate (9 - length name) CHR '' '' @ '' = {'' @
                 strip (collapse_ws (the (dict_get ?fs name))) @ ''},'')
         (filter (\<lambda>name. truthy (dict_get ?fs name)) FIELD_ORDER) @
     [''}'']
     = [''%'', ''@article{Foo20,'', ''  title     = {Zero Trust},'', ''  year      = {2020},'', ''}'']"
    by code_simp
  have t: "render_lines ''article'' ''Foo20'' ?fs =
     [''%'', ''@'' @ ''article'' @ ''{'' @ ''Foo20'' @ '',''] @
     map (\<lambda>name. ''  '' @ name @ replicate (9 - length name) CHR '' '' @ '' = {'' @
                 strip (collapse_ws (the (dict_get ?fs name))) @ ''},'')
         (filter (\<lambda>name. truthy (dict_get ?fs name)) FIELD_ORDER) @
     [''}'']"
    using render_entry_layout[of "''article''" "''Foo20''" ?fs] by (rule conjunct1)
  from t e show "render_lines ''article'' ''Foo20'' ?fs
   = [''%'', ''@article{Foo20,'', ''  title     = {Zero Trust},'', ''  year      = {2020},'', ''}'']"
    by (rule trans)
next
  define fs1 where "fs1 = [(''year'', Some ''2020''), (''title'', Some ''T'')]"
  define fs2 where "fs2 = [(''title'', Some ''T''), (''year'', Some ''2020'')]"
  have "dict_get fs1 name = dict_get fs2 name" for name
    unfolding fs1_def fs2_def dict_get_def by auto
  then have "\<forall>name. dict_get fs1 name = dict_get fs2 name" by blast
  with render_entry_layout[of "''article''" "''Foo20''" fs1 fs2]
  have "render_entry ''article'' ''Foo20'' fs1 = render_entry ''article'' ''Foo20'' fs2"
    by (elim conjE) (erule mp)
  then show "render_entry ''article'' ''Foo20'' [(''year'', Some ''2020''), (''title'', Some ''T'')]
     = render_entry ''article'' ''Foo20'' [(''title'', Some ''T''), (''year'', Some ''2020'')]"
    unfolding fs1_def fs2_def .
qed

section \<open>Proofs: the numbered prompt\<close>



lemma decimal_chars:
  assumes "is_decimal c"
  shows "is_digit c" and "to_lower c = c" and "\<not> is_space c"
    and "c \<noteq> CHR ''q''" and "c \<noteq> CHR ''+''" and "c \<noteq> CHR ''-''"
proof -
  show "is_digit c" "to_lower c = c" "\<not> is_space c"
    using assms by (simp_all add: is_digit_def is_decimal_def to_lower_def is_space_def Let_def)
  have "\<not> is_decimal CHR ''q''" "\<not> is_decimal CHR ''+''" "\<not> is_decimal CHR ''-''"
    by code_simp+
  with assms show "c \<noteq> CHR ''q''" "c \<noteq> CHR ''+''" "c \<noteq> CHR ''-''" by auto
qed

lemma decimal_string:
  assumes "s \<noteq> []" and "list_all is_decimal s"
  shows "str_isdigit s" and "lower s \<noteq> ''q''"
proof -
  show "str_isdigit s"
    using assms decimal_chars(1) by (auto simp: str_isdigit_def list_all_iff)
  have "lower s = s"
    using assms(2) decimal_chars(2) by (simp add: lower_def list_all_iff map_idI)
  moreover have "\<not> is_decimal CHR ''q''" by code_simp
  then have "s \<noteq> ''q''" using assms(2) by auto
  ultimately show "lower s \<noteq> ''q''" by simp
qed

lemma digits_value_decimal:
  "list_all is_decimal s \<Longrightarrow> after \<or> s \<noteq> [] \<Longrightarrow> \<exists>v. digits_value s acc after = Some v \<and> (0 \<le> acc \<longrightarrow> 0 \<le> v)"
proof (induction s arbitrary: acc after)
  case Nil
  then show ?case by simp
next
  case (Cons c s)
  then have c: "is_decimal c" and s: "list_all is_decimal s" by simp_all
  from c have "(48::nat) \<le> of_char c" by (simp add: is_decimal_def Let_def)
  then have "int 48 \<le> int (of_char c)" by (simp only: of_nat_le_iff)
  then have "(48::int) \<le> of_char c" by (simp add: of_nat_of_char)
  then have nn: "0 \<le> acc \<longrightarrow> 0 \<le> 10 * acc + (of_char c - 48)" by auto
  from Cons.IH[OF s, of True "10 * acc + (of_char c - 48)"] obtain v where
    "digits_value s (10 * acc + (of_char c - 48)) True = Some v"
    "0 \<le> 10 * acc + (of_char c - 48) \<longrightarrow> 0 \<le> v" by auto
  with c nn show ?case by simp
qed

lemma strip_no_space: "list_all (\<lambda>c. \<not> is_space c) s \<Longrightarrow> strip s = s"
proof -
  assume a: "list_all (\<lambda>c. \<not> is_space c) s"
  have d: "dropWhile is_space xs = xs" if "\<forall>x\<in>set xs. \<not> is_space x" for xs
    using that by (cases xs) simp_all
  from a have "dropWhile is_space s = s" by (intro d) (simp add: list_all_iff)
  moreover from a have "dropWhile is_space (rev s) = rev s"
    by (intro d) (simp add: list_all_iff)
  ultimately show ?thesis by (simp add: strip_def)
qed

lemma py_int_decimal:
  assumes "s \<noteq> []" and "list_all is_decimal s"
  shows "length s \<le> int_max_str_digits \<longrightarrow> (\<exists>n. py_int s = Inr n \<and> 0 \<le> n)"
    and "int_max_str_digits < length s \<longrightarrow> py_int s = Inl ValueError"
proof -
  have "list_all (\<lambda>c. \<not> is_space c) s"
    using assms(2) decimal_chars(3) by (auto simp: list_all_iff)
  then have st: "strip s = s" by (rule strip_no_space)
  from assms have "is_decimal (hd s)" by (cases s) simp_all
  then have h: "hd s \<noteq> CHR ''+''" "hd s \<noteq> CHR ''-''" using decimal_chars(5,6) by blast+
  from digits_value_decimal[OF assms(2), of False 0] assms(1) obtain v where
    v: "digits_value s 0 False = Some v" "0 \<le> v" by auto
  have f: "filter is_decimal s = s" using assms(2) by (simp add: list_all_iff)
  show "length s \<le> int_max_str_digits \<longrightarrow> (\<exists>n. py_int s = Inr n \<and> 0 \<le> n)"
    using v st h f by (simp add: py_int_def)
  show "int_max_str_digits < length s \<longrightarrow> py_int s = Inl ValueError"
    using v st h f by (simp add: py_int_def)
qed






text \<open>
  The one case the lemmas above do not cover: a line of \<^verbatim>\<open>isdigit\<close> characters that
  \<^verbatim>\<open>int\<close> refuses, that is, one with a superscript digit or one of more than 4300 digits.
  There the \<^verbatim>\<open>ValueError\<close> of \<^verbatim>\<open>int(choice)\<close> leaves the loop: no notice is printed and no
  further line is read.
\<close>

lemma numbers_loop_raises:
  assumes "strip line \<noteq> []" and "lower (strip line) \<noteq> ''q''"
    and "str_isdigit (strip line)" and "py_int (strip line) = Inl exc"
  shows "numbers_loop hits (line # stdin) = ([], Inl exc)"
  using assms by (simp add: Let_def)

lemma numbers_loop_too_many_digits:
  assumes "list_all is_decimal (strip line)" and "int_max_str_digits < length (strip line)"
  shows "numbers_loop hits (line # stdin) = ([], Inl ValueError)"
proof -
  from assms(2) have ne: "strip line \<noteq> []" by auto
  from py_int_decimal(2)[OF ne assms(1)] assms(2)
  have "py_int (strip line) = Inl ValueError" by simp
  with ne decimal_string[OF ne assms(1)] show ?thesis
    by (intro numbers_loop_raises) simp_all
qed

lemma numbers_loop_leading_zeros:
  "numbers_loop [h1, h2] ((replicate 4300 CHR ''0'' @ ''2'') # stdin) = ([], Inl ValueError)"
proof -
  have n: "\<not> is_space CHR ''0''" "\<not> is_space CHR ''2''" "is_decimal CHR ''0''" "is_decimal CHR ''2''"
    by code_simp+
  have "list_all (\<lambda>c. \<not> is_space c) (replicate 4300 CHR ''0'' @ ''2'')"
    using n by (simp add: list_all_iff)
  then have st: "strip (replicate 4300 CHR ''0'' @ ''2'') = replicate 4300 CHR ''0'' @ ''2''"
    by (rule strip_no_space)
  show ?thesis
    by (rule numbers_loop_too_many_digits)
       (simp_all add: st n list_all_iff int_max_str_digits_def)
qed

lemma choose_with_numbers_superscript_digit:
  "str_isdigit [CHR 0xB2]
   \<and> py_int [CHR 0xB2] = Inl ValueError
   \<and> choose_with_numbers [''first'', ''second''] [''A 2020: T1'', ''B 2021: T2'']
         [[CHR 0xB2], ''2'']
       = ([''Multiple entries found. Type the number to select:'',
           ''  1. A 2020: T1'', ''  2. B 2021: T2''],
          Inl ValueError)"
  by code_simp




end
